theory Spec2Isabelle
  imports Complex_Main "HOL-Library.Word" "HOL-Library.Signed_Division"
begin

unbundle bit_operations_syntax

section \<open>Navigation-message parity: countBits and computeChecksum\<close>

text \<open>
  The C type \<open>unsigned long\<close> is 32 bits wide on the target's ARM core and 64 bits on
  an LP64 host. The two functions are therefore modelled over a word of any length
  \<open>'a\<close>; the statements below instantiate it to both widths.
\<close>

definition countBits :: "'a::len word \<Rightarrow> 'a word" where
  "countBits v =
    (let c = v;
         c = ((drop_bit 1 c) AND 0x55555555) + (c AND 0x55555555);
         c = ((drop_bit 2 c) AND 0x33333333) + (c AND 0x33333333);
         c = ((drop_bit 4 c) AND 0x0F0F0F0F) + (c AND 0x0F0F0F0F);
         c = ((drop_bit 8 c) AND 0x00FF00FF) + (c AND 0x00FF00FF);
         c = ((drop_bit 16 c) AND 0x0000FFFF) + (c AND 0x0000FFFF)
     in c)"

definition bmask :: "nat \<Rightarrow> 'a::len word" where
  "bmask k = [0x3B1F3480, 0x1D8F9A40, 0x2EC7CD00, 0x1763E680, 0x2BB1F340, 0x0B7A89C0] ! k"

definition computeChecksum :: "'a::len word \<Rightarrow> int \<Rightarrow> 'a word" where
  "computeChecksum source nib =
    (let d = source AND 0x3FFFFFC0;
         D29 = (drop_bit 31 source) AND 1;
         D30 = (drop_bit 30 source) AND 1;
         d = (if nib \<noteq> 0
              then (let d = (if (D30 + countBits (bmask 4 AND d)) mod 2 \<noteq> 0
                             then d XOR (push_bit 6 1) else d);
                        d = (if (D29 + countBits (bmask 5 AND d)) mod 2 \<noteq> 0
                             then d XOR (push_bit 7 1) else d)
                    in d)
              else d);
         D = d;
         D = (if D30 \<noteq> 0 then D XOR 0x3FFFFFC0 else D);
         D = D OR push_bit 5 ((D29 + countBits (bmask 0 AND d)) mod 2);
         D = D OR push_bit 4 ((D30 + countBits (bmask 1 AND d)) mod 2);
         D = D OR push_bit 3 ((D29 + countBits (bmask 2 AND d)) mod 2);
         D = D OR push_bit 2 ((D30 + countBits (bmask 3 AND d)) mod 2);
         D = D OR push_bit 1 ((D30 + countBits (bmask 4 AND d)) mod 2);
         D = D OR ((D29 + countBits (bmask 5 AND d)) mod 2);
         D = D AND 0x3FFFFFFF
     in D)"

section \<open>C arithmetic on \<open>int\<close> and \<open>double\<close>\<close>

text \<open>
  C's \<open>int\<close> is modelled by \<open>int\<close>; its \<open>/\<close> and \<open>%\<close> truncate towards zero and are
  \<open>sdiv\<close> and \<open>smod\<close>. The value of a \<open>double\<close> is a \<open>real\<close>. The cast \<open>(int) x\<close> of a
  double truncates towards zero, and C's \<open>round\<close> rounds halves away from zero; \<open>floor\<close> and
  \<open>round\<close> of a double are doubles.
\<close>

definition c_int :: "real \<Rightarrow> int" where
  "c_int x = (if 0 \<le> x then \<lfloor>x\<rfloor> else \<lceil>x\<rceil>)"

definition c_round :: "real \<Rightarrow> real" where
  "c_round x = (if 0 \<le> x then of_int \<lfloor>x + 1 / 2\<rfloor> else - of_int \<lfloor>- x + 1 / 2\<rfloor>)"

text \<open>
  Arithmetic on \<open>double\<close>: every operation delivers the exact result rounded to a
  binary64 value. The rounding is the parameter \<open>fl\<close> of the functions below. What is used
  of it is \<open>binary64_like\<close>: it is monotone, and it leaves every number \<open>m / 2\<^sup>j\<close> with
  \<open>|m| \<le> 2\<^sup>5\<^sup>3\<close> and \<open>j \<le> 40\<close> as it is, these numbers being binary64 values. IEEE 754
  rounding has both properties in each of its rounding modes.
\<close>

definition binary64_like :: "(real \<Rightarrow> real) \<Rightarrow> bool" where
  "binary64_like fl \<longleftrightarrow>
     (\<forall>x y. x \<le> y \<longrightarrow> fl x \<le> fl y)
     \<and> (\<forall>m j. \<bar>m\<bar> \<le> 2 ^ 53 \<and> j \<le> 40 \<longrightarrow> fl (of_int m / 2 ^ j) = of_int m / 2 ^ j)"

text \<open>The rounding that changes nothing is one of them; the examples use it.\<close>

definition no_rounding :: "real \<Rightarrow> real" where
  "no_rounding x = x"

text \<open>
  The time conversions date2gps, gps2date and incGpsTime below carry this rounding after
  each of their double operations, a decimal constant that is no binary64 value included.
  In subGpsTime, ionosphericDelay and computeRange the operations are left exact.
\<close>

definition SECONDS_IN_WEEK :: real where "SECONDS_IN_WEEK = 604800"
definition SECONDS_IN_DAY :: real where "SECONDS_IN_DAY = 86400"
definition SECONDS_IN_HOUR :: real where "SECONDS_IN_HOUR = 3600"
definition SECONDS_IN_MINUTE :: real where "SECONDS_IN_MINUTE = 60"
definition PI :: real where "PI = 3.1415926535898"
definition SPEED_OF_LIGHT :: real where "SPEED_OF_LIGHT = 299792458"
definition OMEGA_EARTH :: real where "OMEGA_EARTH = 0.000072921151467"

definition MAX_SAT :: nat where "MAX_SAT = 32"
definition MAX_CHAN :: nat where "MAX_CHAN = 12"
definition N_DWRD_SBF :: nat where "N_DWRD_SBF = 10"
definition CA_SEQ_LEN :: nat where "CA_SEQ_LEN = 1023"
definition EPHEM_ARRAY_SIZE :: int where "EPHEM_ARRAY_SIZE = 13"

section \<open>GPS time and calendar time\<close>

text \<open>
  \<open>gpstime_t\<close> has the fields \<open>week\<close> and \<open>sec\<close> of the source. The fields of
  \<open>datetime_t\<close> (\<open>y, m, d, hh, mm, sec\<close> in the source) carry the prefix \<open>t_\<close>.
\<close>

record gpstime_t =
  week :: int
  sec :: real

record datetime_t =
  t_y :: int
  t_m :: int
  t_d :: int
  t_hh :: int
  t_mm :: int
  t_sec :: real

definition doy :: "int list" where
  "doy = [0, 31, 59, 90, 120, 151, 181, 212, 243, 273, 304, 334]"

definition date2gps :: "(real \<Rightarrow> real) \<Rightarrow> datetime_t \<Rightarrow> gpstime_t" where
  "date2gps fl t =
    (let ye = t_y t - 1980;
         lpdays = ye sdiv 4 + 1;
         lpdays = (if ye smod 4 = 0 \<and> t_m t \<le> 2 then lpdays - 1 else lpdays);
         de = ye * 365 + doy ! nat (t_m t - 1) + t_d t + lpdays - 6
     in \<lparr>week = de sdiv 7,
         sec = fl (fl (fl (fl (of_int (de smod 7) * SECONDS_IN_DAY)
                           + fl (of_int (t_hh t) * SECONDS_IN_HOUR))
                       + fl (of_int (t_mm t) * SECONDS_IN_MINUTE))
                   + t_sec t)\<rparr>)"

definition gps2date :: "(real \<Rightarrow> real) \<Rightarrow> gpstime_t \<Rightarrow> datetime_t" where
  "gps2date fl g =
    (let c = c_int (fl (fl (of_int (7 * week g) + of_int \<lfloor>fl (sec g / 86400)\<rfloor>) + 2444245)) + 1537;
         d = c_int (fl (fl (of_int c - fl 122.1) / 365.25));
         e = 365 * d + d sdiv 4;
         f = c_int (fl (of_int (c - e) / fl 30.6001));
         td = c - e - c_int (fl (fl 30.6001 * of_int f));
         tm = f - 1 - 12 * (f sdiv 14);
         ty = d - 4715 - ((7 + tm) sdiv 10)
     in \<lparr>t_y = ty, t_m = tm, t_d = td,
         t_hh = (c_int (fl (sec g / 3600))) smod 24,
         t_mm = (c_int (fl (sec g / 60))) smod 60,
         t_sec = fl (sec g - fl (60 * of_int \<lfloor>fl (sec g / 60)\<rfloor>))\<rparr>)"

definition subGpsTime :: "gpstime_t \<Rightarrow> gpstime_t \<Rightarrow> real" where
  "subGpsTime g1 g0 =
    (let dt = sec g1 - sec g0;
         dt = dt + of_int (week g1 - week g0) * SECONDS_IN_WEEK
     in dt)"

text \<open>
  The two normalising loops of incGpsTime. On doubles a loop of this kind need not end
  (a huge \<open>sec\<close> absorbs the subtraction), so each is a partial function whose value is
  \<open>None\<close> when it does not return.
\<close>

partial_function (option) incGpsTime_down :: "(real \<Rightarrow> real) \<Rightarrow> gpstime_t \<Rightarrow> gpstime_t option" where
  "incGpsTime_down fl g1 =
    (if sec g1 \<ge> SECONDS_IN_WEEK
     then incGpsTime_down fl (g1\<lparr>sec := fl (sec g1 - SECONDS_IN_WEEK), week := week g1 + 1\<rparr>)
     else Some g1)"

partial_function (option) incGpsTime_up :: "(real \<Rightarrow> real) \<Rightarrow> gpstime_t \<Rightarrow> gpstime_t option" where
  "incGpsTime_up fl g1 =
    (if sec g1 < 0
     then incGpsTime_up fl (g1\<lparr>sec := fl (sec g1 + SECONDS_IN_WEEK), week := week g1 - 1\<rparr>)
     else Some g1)"

definition incGpsTime :: "(real \<Rightarrow> real) \<Rightarrow> gpstime_t \<Rightarrow> real \<Rightarrow> gpstime_t option" where
  "incGpsTime fl g0 dt =
    (let g1 = \<lparr>week = week g0, sec = fl (sec g0 + dt)\<rparr>;
         g1 = g1\<lparr>sec := fl (c_round (fl (sec g1 * 1000)) / 1000)\<rparr>
     in case incGpsTime_down fl g1 of
          None \<Rightarrow> None
        | Some g1 \<Rightarrow> incGpsTime_up fl g1)"

section \<open>C/A code generation\<close>

definition delay :: "int list" where
  "delay = [5, 6, 7, 8, 17, 18, 139, 140, 141, 251,
            252, 254, 255, 256, 257, 258, 469, 470, 471, 472,
            473, 474, 509, 512, 513, 514, 515, 516, 859, 860,
            861, 862]"

text \<open>
  The first loop of codegen: \<open>n\<close> steps of the two ten-stage shift registers \<open>r1\<close> and
  \<open>r2\<close> (stages hold \<open>-1\<close> or \<open>1\<close>), returning the output sequences \<open>g1\<close> and \<open>g2\<close>.
\<close>

fun codegen_regs :: "nat \<Rightarrow> int list \<Rightarrow> int list \<Rightarrow> int list \<times> int list" where
  "codegen_regs 0 r1 r2 = ([], [])"
| "codegen_regs (Suc n) r1 r2 =
    (let c1 = r1 ! 2 * r1 ! 9;
         c2 = r2 ! 1 * r2 ! 2 * r2 ! 5 * r2 ! 7 * r2 ! 8 * r2 ! 9;
         gs = codegen_regs n (c1 # butlast r1) (c2 # butlast r2)
     in (r1 ! 9 # fst gs, r2 ! 9 # snd gs))"

text \<open>
  codegen takes the caller's array \<open>ca\<close> and returns it as the function leaves it. The
  second loop writes \<open>ca[i]\<close> for \<open>i = 0, \<dots>, 1022\<close>, with \<open>j\<close> running from
  \<open>CA_SEQ_LEN - delay[prn - 1]\<close>.
\<close>

definition codegen :: "int list \<Rightarrow> int \<Rightarrow> int list" where
  "codegen ca prn =
    (if prn < 1 \<or> prn > 32 then ca
     else
       (let gs = codegen_regs CA_SEQ_LEN (replicate N_DWRD_SBF (- 1)) (replicate N_DWRD_SBF (- 1));
            g1 = fst gs; g2 = snd gs;
            j0 = CA_SEQ_LEN - nat (delay ! nat (prn - 1))
        in fold (\<lambda>i ca. ca[i := (1 - g1 ! i * g2 ! ((j0 + i) mod CA_SEQ_LEN)) sdiv 2])
             [0..<CA_SEQ_LEN] ca))"

section \<open>Channel scheduler\<close>

text \<open>
  A channel keeps its \<open>prn\<close>, its C/A table \<open>ca\<close> and its \<open>azel\<close> pair; every other
  field of \<open>channel_t\<close> (frequencies, phases, subframes, data words, cursors, \<open>rho0\<close>) is the
  component \<open>rest\<close>. The scheduler state is the channel array together with the global
  table \<open>allocatedSat\<close>.

  The floating-point collaborators of allocateChannel are parameters: \<open>vis sv\<close> is the
  result of \<open>checkSatVisibility(eph[sv], grx, xyz, 0.0, azel)\<close> together with the \<open>azel\<close>
  it writes, and \<open>init sv r\<close> is the effect of eph2sbf, generateNavMsg (with init = 1),
  the two computeRange calls and the carrier-phase initialisation on the remaining fields.
\<close>

record 'r channel_t =
  prn :: int
  ca :: "int list"
  azel :: "real \<times> real"
  rest :: 'r

record 'r sched =
  chan :: "'r channel_t list"
  allocatedSat :: "int list"

text \<open>The inner loop: the first index \<open>i \<ge> i0\<close> below \<open>i0 + k\<close> with \<open>prn = 0\<close>, else \<open>i0 + k\<close>.\<close>

fun first_idle :: "nat \<Rightarrow> nat \<Rightarrow> 'r channel_t list \<Rightarrow> nat" where
  "first_idle 0 i chs = i"
| "first_idle (Suc k) i chs = (if prn (chs ! i) = 0 then i else first_idle k (Suc i) chs)"

definition allocateChannel_sv ::
  "(nat \<Rightarrow> int \<times> (real \<times> real)) \<Rightarrow> (nat \<Rightarrow> 'r \<Rightarrow> 'r) \<Rightarrow> nat \<Rightarrow> int \<times> 'r sched \<Rightarrow> int \<times> 'r sched" where
  "allocateChannel_sv vis init sv ns =
    (let nsat = fst ns; s = snd ns in
     if fst (vis sv) = 1 then
       (let nsat = nsat + 1 in
        if allocatedSat s ! sv = - 1 then
          (let i = first_idle MAX_CHAN 0 (chan s) in
           if i < MAX_CHAN then
             (let c = chan s ! i;
                  c = c\<lparr>prn := int sv + 1\<rparr>;
                  c = c\<lparr>azel := snd (vis sv)\<rparr>;
                  c = c\<lparr>ca := codegen (ca c) (prn c)\<rparr>;
                  c = c\<lparr>rest := init sv (rest c)\<rparr>
              in (nsat, s\<lparr>chan := (chan s)[i := c], allocatedSat := (allocatedSat s)[sv := int i]\<rparr>))
           else (nsat, s))
        else (nsat, s))
     else if allocatedSat s ! sv \<ge> 0 then
       (let k = nat (allocatedSat s ! sv)
        in (nsat, s\<lparr>chan := (chan s)[k := (chan s ! k)\<lparr>prn := 0\<rparr>],
                    allocatedSat := (allocatedSat s)[sv := - 1]\<rparr>))
     else (nsat, s))"

definition allocateChannel ::
  "(nat \<Rightarrow> int \<times> (real \<times> real)) \<Rightarrow> (nat \<Rightarrow> 'r \<Rightarrow> 'r) \<Rightarrow> 'r sched \<Rightarrow> int \<times> 'r sched" where
  "allocateChannel vis init s = fold (allocateChannel_sv vis init) [0..<MAX_SAT] (0, s)"

text \<open>
  The state main sets up before the first call: every channel idle, every table entry
  \<open>-1\<close>. The other channel fields are whatever the array held (\<open>c0\<close>).
\<close>

definition sched_init :: "'r channel_t \<Rightarrow> 'r sched" where
  "sched_init c0 =
    \<lparr>chan = replicate MAX_CHAN (c0\<lparr>prn := 0\<rparr>), allocatedSat = replicate MAX_SAT (- 1)\<rparr>"

text \<open>
  A run of the scheduler: any number of calls, each with its own visibility outcome and
  channel initialisation, starting from a given state.
\<close>

definition allocate_calls ::
  "((nat \<Rightarrow> int \<times> (real \<times> real)) \<times> (nat \<Rightarrow> 'r \<Rightarrow> 'r)) list \<Rightarrow> 'r sched \<Rightarrow> 'r sched" where
  "allocate_calls cs s = fold (\<lambda>c s. snd (allocateChannel (fst c) (snd c) s)) cs s"

text \<open>The consistency of the channel array and the allocation table.\<close>

definition sched_inv :: "'r sched \<Rightarrow> bool" where
  "sched_inv s \<longleftrightarrow>
     length (chan s) = MAX_CHAN \<and> length (allocatedSat s) = MAX_SAT \<and>
     (\<forall>sv<MAX_SAT. allocatedSat s ! sv = - 1 \<or>
        (0 \<le> allocatedSat s ! sv \<and> allocatedSat s ! sv < int MAX_CHAN \<and>
         prn (chan s ! nat (allocatedSat s ! sv)) = int sv + 1)) \<and>
     (\<forall>i<MAX_CHAN. prn (chan s ! i) \<noteq> 0 \<longrightarrow> (\<exists>sv<MAX_SAT. allocatedSat s ! sv = int i))"

text \<open>A visibility outcome in which satellite index 3 alone is visible.\<close>

definition vis_only3 :: "nat \<Rightarrow> int \<times> (real \<times> real)" where
  "vis_only3 sv = (if sv = 3 then 1 else 0, (0, 0))"

section \<open>Ionospheric delay and pseudorange\<close>

record ionoutc_t =
  enable :: bool
  vflg :: bool
  alpha0 :: real
  alpha1 :: real
  alpha2 :: real
  alpha3 :: real
  beta0 :: real
  beta1 :: real
  beta2 :: real
  beta3 :: real
  A0 :: real
  A1 :: real
  dtls :: int
  tot :: int
  wnt :: int
  dtlsf :: int
  dn :: int
  wnlsf :: int

text \<open>The two loops that wrap the local time \<open>t\<close> into one day.\<close>

lemma day_down_measure:
  fixes s :: real
  assumes "86400 \<le> s"
  shows "\<lfloor>(s - 86400) / 86400\<rfloor> < \<lfloor>s / 86400\<rfloor>"
proof -
  have e: "(s - 86400) / 86400 = s / 86400 - 1" by (simp add: field_simps)
  have "\<lfloor>(s - 86400) / 86400\<rfloor> = \<lfloor>s / 86400 - 1\<rfloor>" by (simp only: e)
  also have "\<dots> = \<lfloor>s / 86400\<rfloor> - 1" by (rule floor_diff_one)
  finally show ?thesis by linarith
qed

lemma day_up_measure:
  fixes s :: real
  assumes "s < 0"
  shows "\<lceil>- ((s + 86400) / 86400)\<rceil> < \<lceil>- (s / 86400)\<rceil>"
proof -
  have e: "- ((s + 86400) / 86400) = - (s / 86400) - 1" by (simp add: field_simps)
  have "\<lceil>- ((s + 86400) / 86400)\<rceil> = \<lceil>- (s / 86400) - 1\<rceil>" by (simp only: e)
  also have "\<dots> = \<lceil>- (s / 86400)\<rceil> - 1" by (rule ceiling_diff_one)
  finally show ?thesis by linarith
qed

function local_time_down :: "real \<Rightarrow> real" where
  "local_time_down t = (if t \<ge> SECONDS_IN_DAY then local_time_down (t - SECONDS_IN_DAY) else t)"
  by pat_completeness auto
termination
  by (relation "measure (\<lambda>t. nat \<lfloor>t / 86400\<rfloor>)")
     (simp_all add: SECONDS_IN_DAY_def day_down_measure)

function local_time_up :: "real \<Rightarrow> real" where
  "local_time_up t = (if t < 0 then local_time_up (t + SECONDS_IN_DAY) else t)"
  by pat_completeness auto
termination
  by (relation "measure (\<lambda>t. nat \<lceil>- t / 86400\<rceil>)")
     (simp_all add: SECONDS_IN_DAY_def day_up_measure)

declare local_time_down.simps [simp del] local_time_up.simps [simp del]

text \<open>
  \<open>llh\<close> and \<open>azel\<close> are the arrays of the source: \<open>llh = (lat, lon, h)\<close> and
  \<open>azel = (az, el)\<close>. \<open>pow(x, 3.0)\<close> is the cube.
\<close>

definition ionosphericDelay :: "ionoutc_t \<Rightarrow> gpstime_t \<Rightarrow> real \<times> real \<times> real \<Rightarrow> real \<times> real \<Rightarrow> real" where
  "ionosphericDelay ionoutc g llh azl =
    (if enable ionoutc = False then 0
     else
       (let E = snd azl / PI;
            phi_u = fst llh / PI;
            lam_u = fst (snd llh) / PI;
            F = 1 + 16 * (0.53 - E) ^ 3
        in if vflg ionoutc = False then F * 0.000000005 * SPEED_OF_LIGHT
           else
             (let psi = 0.0137 / (E + 0.11) - 0.022;
                  phi_i = phi_u + psi * cos (fst azl);
                  phi_i = (if phi_i > 0.416 then 0.416 else if phi_i < - 0.416 then - 0.416 else phi_i);
                  lam_i = lam_u + psi * sin (fst azl) / cos (phi_i * PI);
                  phi_m = phi_i + 0.064 * cos ((lam_i - 1.617) * PI);
                  phi_m2 = phi_m * phi_m;
                  phi_m3 = phi_m2 * phi_m;
                  AMP = alpha0 ionoutc + alpha1 ionoutc * phi_m
                        + alpha2 ionoutc * phi_m2 + alpha3 ionoutc * phi_m3;
                  AMP = (if AMP < 0 then 0 else AMP);
                  PER = beta0 ionoutc + beta1 ionoutc * phi_m
                        + beta2 ionoutc * phi_m2 + beta3 ionoutc * phi_m3;
                  PER = (if PER < 72000 then 72000 else PER);
                  t = SECONDS_IN_DAY / 2 * lam_i + sec g;
                  t = local_time_down t;
                  t = local_time_up t;
                  X = 2 * PI * (t - 50400) / PER
              in if \<bar>X\<bar> < 1.57
                 then (let X2 = X * X; X4 = X2 * X2
                       in F * (0.000000005 + AMP * (1 - X2 / 2 + X4 / 24)) * SPEED_OF_LIGHT)
                 else F * 0.000000005 * SPEED_OF_LIGHT)))"

text \<open>
  computeRange. Vectors are triples. The ephemeris type \<open>'e\<close> and the three collaborators
  that need iteration or \<open>atan2\<close> are parameters: \<open>satpos eph g\<close> returns \<open>(pos, vel, clk)\<close>
  with \<open>clk\<close> the pair of clock bias and rate, \<open>xyz2llh\<close> the geodetic position, and
  \<open>neu2azel\<close> the azimuth/elevation pair.
\<close>

type_synonym vec3 = "real \<times> real \<times> real"

definition subVect :: "vec3 \<Rightarrow> vec3 \<Rightarrow> vec3" where
  "subVect x1 x2 = (case x1 of (a0, a1, a2) \<Rightarrow> case x2 of (b0, b1, b2) \<Rightarrow> (a0 - b0, a1 - b1, a2 - b2))"

definition normVect :: "vec3 \<Rightarrow> real" where
  "normVect x = (case x of (x0, x1, x2) \<Rightarrow> sqrt (x0 * x0 + x1 * x1 + x2 * x2))"

definition dotProd :: "vec3 \<Rightarrow> vec3 \<Rightarrow> real" where
  "dotProd x1 x2 = (case x1 of (a0, a1, a2) \<Rightarrow> case x2 of (b0, b1, b2) \<Rightarrow> a0 * b0 + a1 * b1 + a2 * b2)"

definition ltcmat :: "vec3 \<Rightarrow> vec3 \<times> vec3 \<times> vec3" where
  "ltcmat llh =
    (let slat = sin (fst llh); clat = cos (fst llh);
         slon = sin (fst (snd llh)); clon = cos (fst (snd llh))
     in ((- slat * clon, - slat * slon, clat),
         (- slon, clon, 0),
         (clat * clon, clat * slon, slat)))"

definition ecef2neu :: "vec3 \<Rightarrow> vec3 \<times> vec3 \<times> vec3 \<Rightarrow> vec3" where
  "ecef2neu xyz t = (case t of (t0, t1, t2) \<Rightarrow> (dotProd t0 xyz, dotProd t1 xyz, dotProd t2 xyz))"

record range_t =
  rho_g :: gpstime_t
  rho_range :: real
  rho_rate :: real
  rho_d :: real
  rho_azel :: "real \<times> real"
  iono_delay :: real

record 'e geometry =
  satpos :: "'e \<Rightarrow> gpstime_t \<Rightarrow> vec3 \<times> vec3 \<times> (real \<times> real)"
  xyz2llh :: "vec3 \<Rightarrow> vec3"
  neu2azel :: "vec3 \<Rightarrow> real \<times> real"

definition computeRange :: "'e geometry \<Rightarrow> 'e \<Rightarrow> ionoutc_t \<Rightarrow> gpstime_t \<Rightarrow> vec3 \<Rightarrow> range_t" where
  "computeRange G eph ionoutc g xyz =
    (case satpos G eph g of (pos, vel, clk) \<Rightarrow>
     (let los = subVect pos xyz;
          tau = normVect los / SPEED_OF_LIGHT;
          pos = (case pos of (p0, p1, p2) \<Rightarrow> case vel of (v0, v1, v2) \<Rightarrow>
                   (p0 - v0 * tau, p1 - v1 * tau, p2 - v2 * tau));
          xrot = fst pos + fst (snd pos) * OMEGA_EARTH * tau;
          yrot = fst (snd pos) - fst pos * OMEGA_EARTH * tau;
          pos = (xrot, yrot, snd (snd pos));
          los = subVect pos xyz;
          range = normVect los;
          rate = dotProd vel los / range;
          llh = xyz2llh G xyz;
          tmat = ltcmat llh;
          neu = ecef2neu los tmat;
          azl = neu2azel G neu;
          iono = ionosphericDelay ionoutc g llh azl
      in \<lparr>rho_g = g, rho_range = (range - SPEED_OF_LIGHT * fst clk) + iono, rho_rate = rate,
          rho_d = range, rho_azel = azl, iono_delay = iono\<rparr>))"

text \<open>A sample Iono/UTC record with the ionosphere switched off.\<close>

definition io_off :: ionoutc_t where
  "io_off = \<lparr>enable = False, vflg = True, alpha0 = 1, alpha1 = 0, alpha2 = 0, alpha3 = 0,
     beta0 = 1, beta1 = 0, beta2 = 0, beta3 = 0, A0 = 0, A1 = 0, dtls = 18, tot = 0, wnt = 0,
     dtlsf = 0, dn = 0, wnlsf = 0\<rparr>"

section \<open>RINEX ephemeris blocks: assignment to sets\<close>

text \<open>
  The part of the block loop of readRinexNavAll (readRinex2 and readRinex3 in the later
  release have the same lines) between \<open>date2gps(&t, &g)\<close> and the first store into
  \<open>eph[ieph][sv]\<close>. The loop state is the anchor \<open>g0\<close> and the set index \<open>ieph\<close>; the first
  component of the result tells whether the loop is left by \<open>break\<close>.
\<close>

definition readRinex_toc :: "gpstime_t \<Rightarrow> gpstime_t \<times> int \<Rightarrow> bool \<times> gpstime_t \<times> int" where
  "readRinex_toc g st =
    (let g0 = fst st; ieph = snd st;
         g0 = (if week g0 = - 1 then g else g0);
         dt = subGpsTime g g0
     in if dt > SECONDS_IN_HOUR
        then (let g0 = g; ieph = ieph + 1
              in if ieph \<ge> EPHEM_ARRAY_SIZE then (True, g0, ieph) else (False, g0, ieph))
        else (False, g0, ieph))"

text \<open>
  The table \<open>eph\<close> is kept as far as the TOC goes: \<open>eph i sv\<close> is the TOC stored in
  \<open>eph[i][sv].toc\<close>, if any. One block with satellite index \<open>sv\<close> and parsed TOC \<open>g\<close>:
\<close>

definition readRinex_record ::
  "int \<times> gpstime_t \<Rightarrow> gpstime_t \<times> int \<times> (int \<Rightarrow> int \<Rightarrow> gpstime_t option)
     \<Rightarrow> bool \<times> gpstime_t \<times> int \<times> (int \<Rightarrow> int \<Rightarrow> gpstime_t option)" where
  "readRinex_record r st =
    (let sv = fst r; g = snd r; eph = snd (snd st);
         b = readRinex_toc g (fst st, fst (snd st));
         g0 = fst (snd b); ieph = snd (snd b)
     in if fst b then (True, g0, ieph, eph)
        else (False, g0, ieph, eph(ieph := (eph ieph)(sv \<mapsto> g))))"

fun readRinex_blocks ::
  "(int \<times> gpstime_t) list \<Rightarrow> gpstime_t \<times> int \<times> (int \<Rightarrow> int \<Rightarrow> gpstime_t option)
     \<Rightarrow> gpstime_t \<times> int \<times> (int \<Rightarrow> int \<Rightarrow> gpstime_t option)" where
  "readRinex_blocks [] st = st"
| "readRinex_blocks (r # rs) st =
    (let b = readRinex_record r st
     in if fst b then snd b else readRinex_blocks rs (snd b))"

section \<open>Calendar arithmetic used to state and prove the round trip\<close>

text \<open>
  \<open>valid_datetime\<close> says that the fields of a calendar time are in the standard Gregorian
  ranges. \<open>day_count\<close> is the day number \<open>de\<close> of date2gps for years from 1980 on, and
  \<open>jd2date\<close> is the integer form of the Julian-day inversion in gps2date; \<open>month_ok\<close>
  checks that inversion at the first and the last day of a month.
\<close>

definition days_in_month :: "int \<Rightarrow> int \<Rightarrow> int" where
  "days_in_month yr mo =
    (if mo = 2 then (if yr mod 4 = 0 \<and> (yr mod 100 \<noteq> 0 \<or> yr mod 400 = 0) then 29 else 28)
     else if mo = 4 \<or> mo = 6 \<or> mo = 9 \<or> mo = 11 then 30 else 31)"

definition day_count :: "int \<Rightarrow> int \<Rightarrow> int \<Rightarrow> int" where
  "day_count yr mo dy =
    (let ye = yr - 1980;
         lpdays = ye div 4 + 1;
         lpdays = (if ye mod 4 = 0 \<and> mo \<le> 2 then lpdays - 1 else lpdays)
     in ye * 365 + doy ! nat (mo - 1) + dy + lpdays - 6)"

definition jd_D :: "int \<Rightarrow> int" where "jd_D c = (20 * c - 2442) div 7305"

definition jd_E :: "int \<Rightarrow> int" where "jd_E c = 365 * jd_D c + jd_D c div 4"

definition F_of :: "int \<Rightarrow> int \<Rightarrow> int" where "F_of c e = (10000 * (c - e)) div 306001"

definition jd_F :: "int \<Rightarrow> int" where "jd_F c = F_of c (jd_E c)"

definition jd2date :: "int \<Rightarrow> int \<times> int \<times> int" where
  "jd2date c =
    (let F = jd_F c; mon = F - 1 - 12 * (F div 14)
     in (jd_D c - 4715 - ((7 + mon) div 10), mon, c - jd_E c - (306001 * F) div 10000))"

definition month_ok :: "int \<Rightarrow> int \<Rightarrow> bool" where
  "month_ok yr mo =
    (let c1 = day_count yr mo 1 + 2445782;
         c2 = day_count yr mo (days_in_month yr mo) + 2445782
     in jd_D c2 = jd_D c1 \<and> F_of c2 (jd_E c1) = jd_F c1
        \<and> 0 \<le> c1 - jd_E c1 \<and> jd2date c1 = (yr, mo, 1))"

definition valid_datetime :: "datetime_t \<Rightarrow> bool" where
  "valid_datetime t \<longleftrightarrow>
     1 \<le> t_m t \<and> t_m t \<le> 12 \<and> 1 \<le> t_d t \<and> t_d t \<le> days_in_month (t_y t) (t_m t)
     \<and> 0 \<le> t_hh t \<and> t_hh t < 24 \<and> 0 \<le> t_mm t \<and> t_mm t < 60 \<and> 0 \<le> t_sec t \<and> t_sec t < 60"

text \<open>
  The grid of step \<open>2\<^sup>-\<^sup>2\<^sup>0\<close> around a whole number \<open>n\<close> of milliseconds: \<open>ms_near n x\<close>
  says that \<open>x\<close> lies between the two neighbours of \<open>n / 1000\<close> on that grid. It is the
  invariant of the loops of incGpsTime.
\<close>

definition ms_lo :: "int \<Rightarrow> int" where "ms_lo n = (n * 1048576) div 1000"

definition ms_hi :: "int \<Rightarrow> int" where "ms_hi n = - ((- n * 1048576) div 1000)"

definition ms_near :: "int \<Rightarrow> real \<Rightarrow> bool" where
  "ms_near n x \<longleftrightarrow> of_int (ms_lo n) / 2 ^ 20 \<le> x \<and> x \<le> of_int (ms_hi n) / 2 ^ 20"

section \<open>The synthesis loop: periodic maintenance\<close>

text \<open>
  The end of one pass of the main loop, from the computation of \<open>igrx\<close> to the update of
  the receiver time, and the receiver time \<open>grx\<close> itself, which main assigns in three
  places only: \<open>incGpsTime(g0, 0.0)\<close> before the first call of the scheduler,
  \<open>incGpsTime(grx, 0.1)\<close> before the loop, and \<open>incGpsTime(grx, 0.1)\<close> at the end of
  each pass. The modulus \<open>period\<close> is \<open>300\<close> in the later release and \<open>100\<close> in the first
  release; nothing else differs between the two.

  Of an ephemeris record the valid flag and the TOC are kept. The table \<open>eph\<close> is a function
  of the set index and the satellite index. The collaborators are parameters:
  \<open>gen g c init\<close> is the channel after \<open>generateNavMsg(g, &c, init)\<close>, \<open>e2s e c\<close> the channel
  after \<open>eph2sbf(e, ionoutc, c.sbf)\<close>, and \<open>vis ie g\<close>, \<open>ini ie g\<close> are the visibility outcome
  and the channel initialisation of the scheduler for the set \<open>ie\<close>, the time \<open>g\<close> and the
  receiver position of the pass.
\<close>

record 'x ephem_t =
  eph_vflg :: bool
  eph_toc :: gpstime_t
  eph_rest :: 'x

record 'r main_state =
  m_grx :: gpstime_t
  m_ieph :: nat
  m_sched :: "'r sched"

definition igrx_of :: "(real \<Rightarrow> real) \<Rightarrow> gpstime_t \<Rightarrow> int" where
  "igrx_of fl g = c_int (fl (fl (sec g * 10) + 1 / 2))"

definition update_navmsg ::
  "(gpstime_t \<Rightarrow> 'r channel_t \<Rightarrow> int \<Rightarrow> 'r channel_t) \<Rightarrow> gpstime_t \<Rightarrow> 'r channel_t list \<Rightarrow> 'r channel_t list" where
  "update_navmsg gen g chs =
    fold (\<lambda>i chs. if prn (chs ! i) > 0 then chs[i := gen g (chs ! i) 0] else chs) [0..<MAX_CHAN] chs"

text \<open>The loop over \<open>sv\<close> that ends at the first valid record of a set.\<close>

definition first_valid :: "(nat \<Rightarrow> 'x ephem_t) \<Rightarrow> nat option" where
  "first_valid es = find (\<lambda>sv. eph_vflg (es sv)) [0..<MAX_SAT]"

definition refresh_ephemeris ::
  "('x ephem_t \<Rightarrow> 'r channel_t \<Rightarrow> 'r channel_t) \<Rightarrow> (nat \<Rightarrow> nat \<Rightarrow> 'x ephem_t) \<Rightarrow> gpstime_t
     \<Rightarrow> nat \<times> 'r channel_t list \<Rightarrow> nat \<times> 'r channel_t list" where
  "refresh_ephemeris e2s eph g ic =
    (let ie = fst ic; chs = snd ic in
     case first_valid (eph (ie + 1)) of
       None \<Rightarrow> (ie, chs)
     | Some sv \<Rightarrow>
         (let dt = subGpsTime (eph_toc (eph (ie + 1) sv)) g in
          if dt < SECONDS_IN_HOUR
          then (let ie = ie + 1
                in (ie, fold (\<lambda>i chs. if prn (chs ! i) \<noteq> 0
                                     then chs[i := e2s (eph ie (nat (prn (chs ! i) - 1))) (chs ! i)]
                                     else chs) [0..<MAX_CHAN] chs))
          else (ie, chs)))"

definition maintenance ::
  "(gpstime_t \<Rightarrow> 'r channel_t \<Rightarrow> int \<Rightarrow> 'r channel_t) \<Rightarrow> ('x ephem_t \<Rightarrow> 'r channel_t \<Rightarrow> 'r channel_t)
     \<Rightarrow> (nat \<Rightarrow> nat \<Rightarrow> 'x ephem_t) \<Rightarrow> (nat \<Rightarrow> gpstime_t \<Rightarrow> nat \<Rightarrow> int \<times> (real \<times> real))
     \<Rightarrow> (nat \<Rightarrow> gpstime_t \<Rightarrow> nat \<Rightarrow> 'r \<Rightarrow> 'r) \<Rightarrow> 'r main_state \<Rightarrow> 'r main_state" where
  "maintenance gen e2s eph vis ini st =
    (let g = m_grx st; s = m_sched st;
         chs = update_navmsg gen g (chan s);
         ic = refresh_ephemeris e2s eph g (m_ieph st, chs);
         s = snd (allocateChannel (vis (fst ic) g) (ini (fst ic) g) (s\<lparr>chan := snd ic\<rparr>))
     in st\<lparr>m_ieph := fst ic, m_sched := s\<rparr>)"

definition loop_tail ::
  "(real \<Rightarrow> real) \<Rightarrow> int \<Rightarrow> (gpstime_t \<Rightarrow> 'r channel_t \<Rightarrow> int \<Rightarrow> 'r channel_t)
     \<Rightarrow> ('x ephem_t \<Rightarrow> 'r channel_t \<Rightarrow> 'r channel_t)
     \<Rightarrow> (nat \<Rightarrow> nat \<Rightarrow> 'x ephem_t) \<Rightarrow> (nat \<Rightarrow> gpstime_t \<Rightarrow> nat \<Rightarrow> int \<times> (real \<times> real))
     \<Rightarrow> (nat \<Rightarrow> gpstime_t \<Rightarrow> nat \<Rightarrow> 'r \<Rightarrow> 'r) \<Rightarrow> 'r main_state \<Rightarrow> 'r main_state option" where
  "loop_tail fl period gen e2s eph vis ini st =
    (let igrx = igrx_of fl (m_grx st);
         st = (if igrx smod period = 0 then maintenance gen e2s eph vis ini st else st)
     in case incGpsTime fl (m_grx st) (fl (1 / 10)) of
          None \<Rightarrow> None
        | Some g \<Rightarrow> Some (st\<lparr>m_grx := g\<rparr>))"

text \<open>The receiver time at the end of pass \<open>j\<close> of the loop (\<open>j = 0\<close> is the first pass).\<close>

fun rx_time :: "(real \<Rightarrow> real) \<Rightarrow> gpstime_t \<Rightarrow> nat \<Rightarrow> gpstime_t option" where
  "rx_time fl g0 0 =
    (case incGpsTime fl g0 0 of None \<Rightarrow> None | Some g \<Rightarrow> incGpsTime fl g (fl (1 / 10)))"
| "rx_time fl g0 (Suc j) =
    (case rx_time fl g0 j of None \<Rightarrow> None | Some g \<Rightarrow> incGpsTime fl g (fl (1 / 10)))"

text \<open>
  The condition of the specification for moving to the next set: among the valid records of
  that set, the earliest TOC is within one hour of the simulated time.
\<close>

definition spec_next_set_due :: "(nat \<Rightarrow> nat \<Rightarrow> 'x ephem_t) \<Rightarrow> nat \<Rightarrow> gpstime_t \<Rightarrow> bool" where
  "spec_next_set_due eph ie g \<longleftrightarrow>
     (\<exists>sv \<in> set [0..<MAX_SAT]. eph_vflg (eph (ie + 1) sv)
        \<and> (\<forall>sv' \<in> set [0..<MAX_SAT]. eph_vflg (eph (ie + 1) sv')
              \<longrightarrow> subGpsTime (eph_toc (eph (ie + 1) sv)) (eph_toc (eph (ie + 1) sv')) \<le> 0)
        \<and> \<bar>subGpsTime (eph_toc (eph (ie + 1) sv)) g\<bar> < SECONDS_IN_HOUR)"

text \<open>
  Sample data: collaborators that leave the channel as it is, a scheduler outcome with no satellite visible, an idle channel, and a table whose set 1
  has two valid records, satellite index 0 with TOC 5400 s and satellite index 1 with TOC
  1800 s of week 2000.
\<close>

definition keep_navmsg :: "gpstime_t \<Rightarrow> unit channel_t \<Rightarrow> int \<Rightarrow> unit channel_t" where
  "keep_navmsg g c init = c"

definition keep_sbf :: "unit ephem_t \<Rightarrow> unit channel_t \<Rightarrow> unit channel_t" where
  "keep_sbf e c = c"

definition none_visible :: "nat \<Rightarrow> gpstime_t \<Rightarrow> nat \<Rightarrow> int \<times> (real \<times> real)" where
  "none_visible ie g sv = (0, (0, 0))"

definition keep_rest :: "nat \<Rightarrow> gpstime_t \<Rightarrow> nat \<Rightarrow> unit \<Rightarrow> unit" where
  "keep_rest ie g sv r = r"

definition idle_channel :: "unit channel_t" where
  "idle_channel = \<lparr>prn = 0, ca = [], azel = (0, 0), rest = ()\<rparr>"

definition eph_two_tocs :: "nat \<Rightarrow> nat \<Rightarrow> unit ephem_t" where
  "eph_two_tocs ie sv =
    \<lparr>eph_vflg = (ie = 1 \<and> sv < 2),
     eph_toc = \<lparr>week = 2000, sec = (if sv = 0 then 5400 else 1800)\<rparr>,
     eph_rest = ()\<rparr>"

section \<open>Parity fixed vector\<close>

text \<open>
  The source word \<open>0x22C000C0\<close> has its two top bits (D29* and D30*) clear. With
  \<open>nib = 0\<close> the function does not return \<open>0x22C000FC\<close>, neither for a 32-bit nor for
  a 64-bit \<open>unsigned long\<close>.
\<close>

theorem computeChecksum_fixed_vector_refuted:
  "computeChecksum (0x22C000C0 :: 32 word) 0 \<noteq> 0x22C000FC
   \<and> computeChecksum (0x22C000C0 :: 64 word) 0 \<noteq> 0x22C000FC"
  by (simp add: computeChecksum_def countBits_def bmask_def Let_def)

text \<open>
  Claim C1, amended. For the source word \<open>0x22C000C0\<close> with D29* = D30* = 0 and
  \<open>nib = 0\<close>, computeChecksum returns exactly \<open>0x22C000E4\<close>: the 24 data bits are kept
  and the six parity bits are \<open>100100\<close>. This holds for a 32-bit and for a 64-bit
  \<open>unsigned long\<close>.
\<close>

theorem computeChecksum_fixed_vector:
  "computeChecksum (0x22C000C0 :: 32 word) 0 = 0x22C000E4
   \<and> computeChecksum (0x22C000C0 :: 64 word) 0 = 0x22C000E4"
  by (simp add: computeChecksum_def countBits_def bmask_def Let_def)

section \<open>Scheduler invariant\<close>

lemma first_idle_le: "first_idle k i chs \<le> i + k"
  by (induction k i chs rule: first_idle.induct) auto

lemma first_idle_prn: "first_idle k i chs < i + k \<Longrightarrow> prn (chs ! first_idle k i chs) = 0"
  by (induction k i chs rule: first_idle.induct) auto

lemma sched_inv_init: "sched_inv (sched_init c0)"
  by (simp add: sched_inv_def sched_init_def MAX_CHAN_def MAX_SAT_def)

lemma sched_inv_alloc:
  assumes inv: "sched_inv s" and sv: "sv < MAX_SAT" and free: "allocatedSat s ! sv = - 1"
    and i: "i < MAX_CHAN" and idle: "prn (chan s ! i) = 0" and p: "prn c = int sv + 1"
  shows "sched_inv (s\<lparr>chan := (chan s)[i := c], allocatedSat := (allocatedSat s)[sv := int i]\<rparr>)"
proof -
  let ?ch = "(chan s)[i := c]" and ?al = "(allocatedSat s)[sv := int i]"
  let ?r = "s\<lparr>chan := ?ch, allocatedSat := ?al\<rparr>"
  have lc: "length (chan s) = MAX_CHAN" and la: "length (allocatedSat s) = MAX_SAT"
    using inv by (simp_all add: sched_inv_def)
  have fw: "\<And>sv'. sv' < MAX_SAT \<Longrightarrow> allocatedSat s ! sv' = - 1 \<or>
        (0 \<le> allocatedSat s ! sv' \<and> allocatedSat s ! sv' < int MAX_CHAN \<and>
         prn (chan s ! nat (allocatedSat s ! sv')) = int sv' + 1)"
    using inv by (simp add: sched_inv_def)
  have bw: "\<And>j. j < MAX_CHAN \<Longrightarrow> prn (chan s ! j) \<noteq> 0 \<Longrightarrow> \<exists>sv'<MAX_SAT. allocatedSat s ! sv' = int j"
    using inv by (simp add: sched_inv_def)
  have 1: "?al ! sv' = - 1 \<or> (0 \<le> ?al ! sv' \<and> ?al ! sv' < int MAX_CHAN \<and>
         prn (?ch ! nat (?al ! sv')) = int sv' + 1)" if s': "sv' < MAX_SAT" for sv'
  proof (cases "sv' = sv")
    case True
    then show ?thesis using sv la lc i p by simp
  next
    case False
    then have e: "?al ! sv' = allocatedSat s ! sv'" by simp
    from fw[OF s'] show ?thesis
    proof
      assume "allocatedSat s ! sv' = - 1" then show ?thesis using e by simp
    next
      assume h: "0 \<le> allocatedSat s ! sv' \<and> allocatedSat s ! sv' < int MAX_CHAN \<and>
         prn (chan s ! nat (allocatedSat s ! sv')) = int sv' + 1"
      then have "nat (allocatedSat s ! sv') \<noteq> i" using idle by auto
      then have "?ch ! nat (allocatedSat s ! sv') = chan s ! nat (allocatedSat s ! sv')" by simp
      then show ?thesis using h e by simp
    qed
  qed
  have 2: "\<exists>sv'<MAX_SAT. ?al ! sv' = int j" if j: "j < MAX_CHAN" and nz: "prn (?ch ! j) \<noteq> 0" for j
  proof (cases "j = i")
    case True
    then show ?thesis using sv la by (intro exI[of _ sv]) simp
  next
    case False
    then have "prn (chan s ! j) \<noteq> 0" using nz by simp
    from bw[OF j this] obtain sv' where s': "sv' < MAX_SAT" and a: "allocatedSat s ! sv' = int j" by blast
    have "sv' \<noteq> sv" using a free by auto
    then have "?al ! sv' = int j" using a by simp
    then show ?thesis using s' by blast
  qed
  have c: "chan ?r = ?ch" and a: "allocatedSat ?r = ?al" by simp_all
  show ?thesis
    unfolding sched_inv_def c a
  proof (intro conjI allI impI)
    show "length ?ch = MAX_CHAN" by (simp add: lc)
    show "length ?al = MAX_SAT" by (simp add: la)
  qed (rule 1, assumption, rule 2, assumption+)
qed

lemma sched_inv_free:
  assumes inv: "sched_inv s" and sv: "sv < MAX_SAT" and used: "allocatedSat s ! sv \<ge> 0"
  shows "sched_inv (s\<lparr>chan := (chan s)[nat (allocatedSat s ! sv) := (chan s ! nat (allocatedSat s ! sv))\<lparr>prn := 0\<rparr>],
                     allocatedSat := (allocatedSat s)[sv := - 1]\<rparr>)"
proof -
  let ?k = "nat (allocatedSat s ! sv)"
  let ?ch = "(chan s)[?k := (chan s ! ?k)\<lparr>prn := 0\<rparr>]" and ?al = "(allocatedSat s)[sv := - 1]"
  let ?r = "s\<lparr>chan := ?ch, allocatedSat := ?al\<rparr>"
  have lc: "length (chan s) = MAX_CHAN" and la: "length (allocatedSat s) = MAX_SAT"
    using inv by (simp_all add: sched_inv_def)
  have fw: "\<And>sv'. sv' < MAX_SAT \<Longrightarrow> allocatedSat s ! sv' = - 1 \<or>
        (0 \<le> allocatedSat s ! sv' \<and> allocatedSat s ! sv' < int MAX_CHAN \<and>
         prn (chan s ! nat (allocatedSat s ! sv')) = int sv' + 1)"
    using inv by (simp add: sched_inv_def)
  have bw: "\<And>j. j < MAX_CHAN \<Longrightarrow> prn (chan s ! j) \<noteq> 0 \<Longrightarrow> \<exists>sv'<MAX_SAT. allocatedSat s ! sv' = int j"
    using inv by (simp add: sched_inv_def)
  have k: "?k < MAX_CHAN" and pk: "prn (chan s ! ?k) = int sv + 1"
    using fw[OF sv] used by auto
  have 1: "?al ! sv' = - 1 \<or> (0 \<le> ?al ! sv' \<and> ?al ! sv' < int MAX_CHAN \<and>
         prn (?ch ! nat (?al ! sv')) = int sv' + 1)" if s': "sv' < MAX_SAT" for sv'
  proof (cases "sv' = sv")
    case True
    then show ?thesis using sv la by simp
  next
    case False
    then have e: "?al ! sv' = allocatedSat s ! sv'" by simp
    from fw[OF s'] show ?thesis
    proof
      assume "allocatedSat s ! sv' = - 1" then show ?thesis using e by simp
    next
      assume h: "0 \<le> allocatedSat s ! sv' \<and> allocatedSat s ! sv' < int MAX_CHAN \<and>
         prn (chan s ! nat (allocatedSat s ! sv')) = int sv' + 1"
      have "nat (allocatedSat s ! sv') \<noteq> ?k"
      proof
        assume eq: "nat (allocatedSat s ! sv') = ?k"
        have "prn (chan s ! nat (allocatedSat s ! sv')) = int sv' + 1" using h by blast
        moreover have "prn (chan s ! nat (allocatedSat s ! sv')) = int sv + 1"
          using pk by (simp only: eq)
        ultimately have "int sv' + 1 = int sv + 1" by linarith
        then show False using False by simp
      qed
      then have "?ch ! nat (allocatedSat s ! sv') = chan s ! nat (allocatedSat s ! sv')" by simp
      then show ?thesis using h e by simp
    qed
  qed
  have 2: "\<exists>sv'<MAX_SAT. ?al ! sv' = int j" if j: "j < MAX_CHAN" and nz: "prn (?ch ! j) \<noteq> 0" for j
  proof -
    have jk: "j \<noteq> ?k"
    proof
      assume "j = ?k"
      then have "?ch ! j = (chan s ! ?k)\<lparr>prn := 0\<rparr>" using k lc by simp
      then have "prn (?ch ! j) = 0" by simp
      with nz show False by blast
    qed
    then have "?ch ! j = chan s ! j" by simp
    then have "prn (chan s ! j) \<noteq> 0" using nz by simp
    from bw[OF j this] obtain sv' where s': "sv' < MAX_SAT" and a: "allocatedSat s ! sv' = int j" by blast
    have "sv' \<noteq> sv"
    proof
      assume "sv' = sv"
      then have "allocatedSat s ! sv = int j" using a by simp
      then have "?k = j" by simp
      with jk show False by simp
    qed
    then have "?al ! sv' = allocatedSat s ! sv'" by simp
    then have "?al ! sv' = int j" using a by simp
    then show ?thesis using s' by blast
  qed
  have c: "chan ?r = ?ch" and a: "allocatedSat ?r = ?al" by simp_all
  show ?thesis
    unfolding sched_inv_def c a
  proof (intro conjI allI impI)
    show "length ?ch = MAX_CHAN" by (simp add: lc)
    show "length ?al = MAX_SAT" by (simp add: la)
  qed (rule 1, assumption, rule 2, assumption+)
qed

lemma sched_inv_sv:
  assumes inv: "sched_inv (snd ns)" and sv: "sv < MAX_SAT"
  shows "sched_inv (snd (allocateChannel_sv vis init sv ns))"
proof -
  obtain n s where ns: "ns = (n, s)" by (cases ns)
  have inv': "sched_inv s" using inv ns by simp
  let ?i = "first_idle MAX_CHAN 0 (chan s)"
  consider (a) "fst (vis sv) = 1" "allocatedSat s ! sv = - 1" "?i < MAX_CHAN"
    | (b) "fst (vis sv) = 1" "\<not> (allocatedSat s ! sv = - 1 \<and> ?i < MAX_CHAN)"
    | (c) "fst (vis sv) \<noteq> 1" "allocatedSat s ! sv \<ge> 0"
    | (d) "fst (vis sv) \<noteq> 1" "\<not> allocatedSat s ! sv \<ge> 0"
    by blast
  then show ?thesis
  proof cases
    case a
    have idle: "prn (chan s ! ?i) = 0"
      using first_idle_prn[of MAX_CHAN 0 "chan s"] a(3) by simp
    let ?c = "(chan s ! ?i)\<lparr>prn := int sv + 1, azel := snd (vis sv),
                ca := codegen (ca (chan s ! ?i)) (int sv + 1), rest := init sv (rest (chan s ! ?i))\<rparr>"
    have "sched_inv (s\<lparr>chan := (chan s)[?i := ?c], allocatedSat := (allocatedSat s)[sv := int ?i]\<rparr>)"
      by (rule sched_inv_alloc[OF inv' sv a(2) a(3) idle]) simp
    then show ?thesis
      using a by (simp add: ns allocateChannel_sv_def Let_def)
  next
    case b
    then show ?thesis using inv' by (auto simp add: ns allocateChannel_sv_def Let_def)
  next
    case c
    then show ?thesis
      using sched_inv_free[OF inv' sv c(2)] by (simp add: ns allocateChannel_sv_def Let_def)
  next
    case d
    then show ?thesis using inv' by (simp add: ns allocateChannel_sv_def Let_def)
  qed
qed

lemma fold_inv:
  assumes "P s" and "\<And>x s. x \<in> set xs \<Longrightarrow> P s \<Longrightarrow> P (f x s)"
  shows "P (fold f xs s)"
  using assms by (induction xs arbitrary: s) simp_all

lemma sched_inv_allocateChannel:
  assumes "sched_inv s"
  shows "sched_inv (snd (allocateChannel vis init s))"
  unfolding allocateChannel_def
  by (rule fold_inv[where P = "\<lambda>ns. sched_inv (snd ns)"])
     (use assms in \<open>simp_all add: sched_inv_sv\<close>)

lemma sched_inv_calls: "sched_inv s \<Longrightarrow> sched_inv (allocate_calls cs s)"
  unfolding allocate_calls_def
  by (rule fold_inv) (simp_all add: sched_inv_allocateChannel)

lemma sched_inv_reachable: "sched_inv (allocate_calls cs (sched_init c0))"
  by (rule sched_inv_calls) (rule sched_inv_init)

lemma allocateChannel_sv_skip:
  "fst (vis sv) \<noteq> 1 \<Longrightarrow> allocatedSat s ! sv = - 1 \<Longrightarrow> allocateChannel_sv vis init sv (n, s) = (n, s)"
  by (simp add: allocateChannel_sv_def)

lemma allocateChannel_fold_skip:
  "(\<forall>sv\<in>set xs. fst (vis sv) \<noteq> 1 \<and> allocatedSat s ! sv = - 1) \<Longrightarrow>
   fold (allocateChannel_sv vis init) xs (n, s) = (n, s)"
  by (induction xs) (simp_all add: allocateChannel_sv_skip)

text \<open>
  Claim C4. After any number of calls of allocateChannel, whatever the visibility
  outcomes, starting from the state with every \<open>prn = 0\<close> and every \<open>allocatedSat\<close> entry
  \<open>-1\<close>: a channel is referenced by the allocation table iff its \<open>prn\<close> is nonzero; at most
  12 channels have a nonzero \<open>prn\<close> and at most 12 table entries are \<open>\<ge> 0\<close>; the table is
  injective on its entries \<open>\<ge> 0\<close>; and \<open>allocatedSat[sv] = i\<close> implies
  \<open>chan[i].prn = sv + 1\<close>.
\<close>

theorem allocateChannel_invariant:
  "let s = allocate_calls cs (sched_init c0) in
     (\<forall>i<MAX_CHAN. (\<exists>sv<MAX_SAT. allocatedSat s ! sv = int i) \<longleftrightarrow> prn (chan s ! i) \<noteq> 0)
   \<and> card {i. i < length (chan s) \<and> prn (chan s ! i) \<noteq> 0} \<le> 12
   \<and> card {sv. sv < MAX_SAT \<and> 0 \<le> allocatedSat s ! sv} \<le> 12
   \<and> inj_on (\<lambda>sv. allocatedSat s ! sv) {sv. sv < MAX_SAT \<and> 0 \<le> allocatedSat s ! sv}
   \<and> (\<forall>sv<MAX_SAT. \<forall>i. allocatedSat s ! sv = int i \<longrightarrow> prn (chan s ! i) = int sv + 1)"
proof -
  define s where "s = allocate_calls cs (sched_init c0)"
  have inv: "sched_inv s" unfolding s_def by (rule sched_inv_reachable)
  have lc: "length (chan s) = MAX_CHAN" and la: "length (allocatedSat s) = MAX_SAT"
    using inv by (simp_all add: sched_inv_def)
  have fw: "\<And>sv. sv < MAX_SAT \<Longrightarrow> allocatedSat s ! sv = - 1 \<or>
        (0 \<le> allocatedSat s ! sv \<and> allocatedSat s ! sv < int MAX_CHAN \<and>
         prn (chan s ! nat (allocatedSat s ! sv)) = int sv + 1)"
    using inv by (simp add: sched_inv_def)
  have bw: "\<And>j. j < MAX_CHAN \<Longrightarrow> prn (chan s ! j) \<noteq> 0 \<Longrightarrow> \<exists>sv<MAX_SAT. allocatedSat s ! sv = int j"
    using inv by (simp add: sched_inv_def)
  have p5: "prn (chan s ! i) = int sv + 1" if "sv < MAX_SAT" "allocatedSat s ! sv = int i" for sv i
  proof -
    have "0 \<le> allocatedSat s ! sv" using that(2) by simp
    with fw[OF that(1)] have "prn (chan s ! nat (allocatedSat s ! sv)) = int sv + 1" by linarith
    then show ?thesis by (simp add: that(2))
  qed
  have p1: "(\<exists>sv<MAX_SAT. allocatedSat s ! sv = int i) \<longleftrightarrow> prn (chan s ! i) \<noteq> 0" if "i < MAX_CHAN" for i
  proof
    assume "\<exists>sv<MAX_SAT. allocatedSat s ! sv = int i"
    then obtain sv where "sv < MAX_SAT" "allocatedSat s ! sv = int i" by blast
    from p5[OF this] show "prn (chan s ! i) \<noteq> 0" by simp
  next
    assume "prn (chan s ! i) \<noteq> 0"
    from bw[OF that this] show "\<exists>sv<MAX_SAT. allocatedSat s ! sv = int i" .
  qed
  have "{i. i < length (chan s) \<and> prn (chan s ! i) \<noteq> 0} \<subseteq> {..<12}"
    using lc by (auto simp: MAX_CHAN_def)
  then have "card {i. i < length (chan s) \<and> prn (chan s ! i) \<noteq> 0} \<le> card {..<12::nat}"
    by (intro card_mono) simp_all
  then have p2: "card {i. i < length (chan s) \<and> prn (chan s ! i) \<noteq> 0} \<le> 12" by simp
  have p4: "inj_on (\<lambda>sv. allocatedSat s ! sv) {sv. sv < MAX_SAT \<and> 0 \<le> allocatedSat s ! sv}"
  proof (rule inj_onI)
    fix a b
    assume a: "a \<in> {sv. sv < MAX_SAT \<and> 0 \<le> allocatedSat s ! sv}"
      and b: "b \<in> {sv. sv < MAX_SAT \<and> 0 \<le> allocatedSat s ! sv}"
      and e: "allocatedSat s ! a = allocatedSat s ! b"
    have a': "a < MAX_SAT" "0 \<le> allocatedSat s ! a" using a by simp_all
    have b': "b < MAX_SAT" "0 \<le> allocatedSat s ! b" using b by simp_all
    have x: "prn (chan s ! nat (allocatedSat s ! a)) = int a + 1" using fw[OF a'(1)] a'(2) by linarith
    have y: "prn (chan s ! nat (allocatedSat s ! b)) = int b + 1" using fw[OF b'(1)] b'(2) by linarith
    have "int a + 1 = prn (chan s ! nat (allocatedSat s ! a))" using x by simp
    also have "\<dots> = prn (chan s ! nat (allocatedSat s ! b))" by (simp only: e)
    also have "\<dots> = int b + 1" by (rule y)
    finally show "a = b" by simp
  qed
  have "(\<lambda>sv. allocatedSat s ! sv) ` {sv. sv < MAX_SAT \<and> 0 \<le> allocatedSat s ! sv} \<subseteq> {0..<12}"
  proof
    fix v assume "v \<in> (\<lambda>sv. allocatedSat s ! sv) ` {sv. sv < MAX_SAT \<and> 0 \<le> allocatedSat s ! sv}"
    then obtain sv where sv: "sv < MAX_SAT" "0 \<le> allocatedSat s ! sv" and v: "v = allocatedSat s ! sv"
      by blast
    from fw[OF sv(1)] sv(2) have "allocatedSat s ! sv < int MAX_CHAN" by linarith
    then show "v \<in> {0..<12}" using sv(2) v by (simp add: MAX_CHAN_def)
  qed
  then have "card {sv. sv < MAX_SAT \<and> 0 \<le> allocatedSat s ! sv} \<le> card {0..<12::int}"
    by (intro card_inj_on_le[OF p4]) simp_all
  then have p3: "card {sv. sv < MAX_SAT \<and> 0 \<le> allocatedSat s ! sv} \<le> 12" by simp
  show ?thesis
    unfolding Let_def s_def[symmetric] using p1 p2 p3 p4 p5 by blast
qed

text \<open>
  The invariant at work: one call in which only satellite index 3 is visible puts it on
  channel 0, whose \<open>prn\<close> is then 4.
\<close>

theorem allocateChannel_invariant_witness:
  "allocatedSat (allocate_calls [(vis_only3, \<lambda>sv r. r)]
       (sched_init \<lparr>prn = 7, ca = [], azel = (0, 0), rest = ()\<rparr>)) ! 3 = 0
   \<and> prn (chan (allocate_calls [(vis_only3, \<lambda>sv r. r)]
       (sched_init \<lparr>prn = 7, ca = [], azel = (0, 0), rest = ()\<rparr>)) ! 0) = 4"
proof -
  let ?ci = "\<lparr>prn = 7, ca = [], azel = (0, 0), rest = ()\<rparr>"
  let ?init = "\<lambda>(sv::nat) (r::unit). r"
  let ?si = "sched_init ?ci"
  let ?s = "allocate_calls [(vis_only3, ?init)] ?si"
  define s1 where "s1 = snd (allocateChannel_sv vis_only3 ?init 3 (0, ?si))"
  have split: "[0..<MAX_SAT] = [0..<3] @ 3 # [4..<32]"
    unfolding MAX_SAT_def by (simp add: upt_rec[of 3] flip: upt_add_eq_append[of 0 3 29, simplified])
  have a0: "\<forall>sv\<in>set [0..<3]. fst (vis_only3 sv) \<noteq> 1 \<and> allocatedSat ?si ! sv = - 1"
    by (simp add: vis_only3_def sched_init_def MAX_SAT_def)
  have lt: "(0::nat) < MAX_CHAN" by (simp add: MAX_CHAN_def)
  have fi: "first_idle MAX_CHAN 0 (chan ?si) = 0"
    by (simp add: MAX_CHAN_def sched_init_def eval_nat_numeral)
  have n3: "allocatedSat ?si ! 3 = - 1" by (simp add: sched_init_def MAX_SAT_def)
  have st1: "allocateChannel_sv vis_only3 ?init 3 (0, ?si) = (1, s1)"
    and al1: "allocatedSat s1 = (allocatedSat ?si)[3 := 0]"
    unfolding s1_def by (simp_all add: allocateChannel_sv_def Let_def fi lt n3 vis_only3_def)
  have a1: "\<forall>sv\<in>set [4..<32]. fst (vis_only3 sv) \<noteq> 1 \<and> allocatedSat s1 ! sv = - 1"
    by (auto simp add: vis_only3_def al1 sched_init_def MAX_SAT_def)
  have "allocateChannel vis_only3 ?init ?si = (1, s1)"
    unfolding allocateChannel_def split
    by (simp only: fold_append o_apply fold_simps allocateChannel_fold_skip[OF a0] st1
        allocateChannel_fold_skip[OF a1])
  then have fin: "?s = s1" by (simp add: allocate_calls_def)
  have a: "allocatedSat ?s ! 3 = int 0"
    unfolding fin al1 by (simp add: sched_init_def MAX_SAT_def)
  have "(3::nat) < MAX_SAT" by (simp add: MAX_SAT_def)
  with allocateChannel_invariant[of "[(vis_only3, ?init)]" ?ci] a
  have "prn (chan ?s ! 0) = int 3 + 1" unfolding Let_def by blast
  with a show ?thesis by simp
qed

section \<open>Ionospheric delay: disabled and fallback branches\<close>

text \<open>
  Claim C5. For every ionoutc record, GPS time, geodetic position and azimuth/elevation
  pair: with the enable flag false ionosphericDelay returns exactly 0; with the enable flag
  true and the validity flag false it returns \<open>F * 5e-9 * c\<close>, where
  \<open>F = 1 + 16 * (0.53 - el / PI)\<^sup>3\<close>, \<open>PI\<close> is the program's constant and \<open>c\<close> the speed of
  light. Consequently, with the ionosphere disabled, every range record that
  computeRange produces (the only source of a channel's \<open>rho0\<close>) has \<open>iono_delay = 0\<close>,
  whatever the satellite geometry.
\<close>

theorem ionosphericDelay_disabled_or_invalid:
  "(enable io = False \<longrightarrow> ionosphericDelay io g llh azl = 0)
   \<and> (enable io = True \<and> vflg io = False \<longrightarrow>
        ionosphericDelay io g llh azl
          = (1 + 16 * (0.53 - snd azl / PI) ^ 3) * 0.000000005 * SPEED_OF_LIGHT)
   \<and> (enable io = False \<longrightarrow> iono_delay (computeRange G eph io g xyz) = 0)"
  by (simp add: ionosphericDelay_def computeRange_def Let_def split: prod.splits)

text \<open>Both branches at the origin of the geodetic grid, elevation 0.\<close>

theorem ionosphericDelay_disabled_or_invalid_witness:
  "ionosphericDelay io_off \<lparr>week = 1824, sec = 0\<rparr> (0, 0, 0) (0, 0) = 0
   \<and> ionosphericDelay (io_off\<lparr>enable := True, vflg := False\<rparr>) \<lparr>week = 1824, sec = 0\<rparr> (0, 0, 0) (0, 0)
       = 31684615197333 / 6250000000000"
proof -
  have off: "enable io_off = False" by (simp add: io_off_def)
  have inv: "enable (io_off\<lparr>enable := True, vflg := False\<rparr>) = True
             \<and> vflg (io_off\<lparr>enable := True, vflg := False\<rparr>) = False" by simp
  have v: "(1 + 16 * (0.53 - snd (0::real, 0::real) / PI) ^ 3) * 0.000000005 * SPEED_OF_LIGHT
           = 31684615197333 / 6250000000000"
    by (simp add: SPEED_OF_LIGHT_def power3_eq_cube)
  have 1: "ionosphericDelay io_off \<lparr>week = 1824, sec = 0\<rparr> (0, 0, 0) (0, 0) = 0"
    by (rule mp[OF conjunct1[OF ionosphericDelay_disabled_or_invalid] off])
  have "ionosphericDelay (io_off\<lparr>enable := True, vflg := False\<rparr>) \<lparr>week = 1824, sec = 0\<rparr> (0, 0, 0) (0, 0)
          = (1 + 16 * (0.53 - snd (0::real, 0::real) / PI) ^ 3) * 0.000000005 * SPEED_OF_LIGHT"
    by (rule mp[OF conjunct1[OF conjunct2[OF ionosphericDelay_disabled_or_invalid]] inv])
  with 1 v show ?thesis by (simp only:)
qed

section \<open>Rounding of double operations\<close>

lemma fl_mono: "binary64_like fl \<Longrightarrow> x \<le> y \<Longrightarrow> fl x \<le> fl y"
  unfolding binary64_like_def by blast

lemma fl_dyadic:
  "binary64_like fl \<Longrightarrow> \<bar>m\<bar> \<le> 2 ^ 53 \<Longrightarrow> j \<le> 40 \<Longrightarrow> fl (of_int m / 2 ^ j) = of_int m / 2 ^ j"
  unfolding binary64_like_def by blast

lemma fl_int: "binary64_like fl \<Longrightarrow> \<bar>m\<bar> \<le> 2 ^ 53 \<Longrightarrow> fl (of_int m) = of_int m"
  using fl_dyadic[of fl m 0] by simp

lemma fl_bracket:
  assumes "binary64_like fl" "a \<le> x" "x \<le> b" "fl a = a" "fl b = b"
  shows "a \<le> fl x" and "fl x \<le> b"
  using fl_mono[OF assms(1,2)] fl_mono[OF assms(1,3)] assms(4,5) by simp_all

lemma power_numeral_eval_53: "(2 ^ 53 :: int) = 9007199254740992"
  by simp

lemma fl_grid:
  assumes P: "binary64_like fl" and j: "j \<le> 40" and x: "\<bar>x\<bar> * 2 ^ j \<le> 2 ^ 52"
  shows "of_int \<lfloor>x * 2 ^ j\<rfloor> / 2 ^ j \<le> fl x" and "fl x \<le> of_int \<lceil>x * 2 ^ j\<rceil> / 2 ^ j"
proof -
  define y where "y = x * 2 ^ j"
  have "\<bar>y\<bar> \<le> 2 ^ 52" unfolding y_def using x by (simp add: abs_mult)
  then have lo: "- 4503599627370496 \<le> y" and hi: "y \<le> 4503599627370496"
    unfolding abs_le_iff by simp_all
  have "(of_int \<lfloor>y\<rfloor> :: real) \<le> 4503599627370496" "- 4503599627370497 \<le> (of_int \<lfloor>y\<rfloor> :: real)"
    using lo hi by linarith+
  then have "\<lfloor>y\<rfloor> \<le> 4503599627370496" "- 4503599627370497 \<le> \<lfloor>y\<rfloor>"
    by linarith+
  then have "\<bar>\<lfloor>y\<rfloor>\<bar> \<le> (9007199254740992 :: int)" unfolding abs_le_iff by linarith
  then have f: "\<bar>\<lfloor>x * 2 ^ j\<rfloor>\<bar> \<le> (2 ^ 53 :: int)" unfolding y_def by (simp only: power_numeral_eval_53)
  have "(of_int \<lceil>y\<rceil> :: real) \<le> 4503599627370497" "- 4503599627370496 \<le> (of_int \<lceil>y\<rceil> :: real)"
    using lo hi by linarith+
  then have "\<lceil>y\<rceil> \<le> 4503599627370497" "- 4503599627370496 \<le> \<lceil>y\<rceil>"
    by linarith+
  then have "\<bar>\<lceil>y\<rceil>\<bar> \<le> (9007199254740992 :: int)" unfolding abs_le_iff by linarith
  then have c: "\<bar>\<lceil>x * 2 ^ j\<rceil>\<bar> \<le> (2 ^ 53 :: int)" unfolding y_def by (simp only: power_numeral_eval_53)
  have a: "of_int \<lfloor>x * 2 ^ j\<rfloor> / 2 ^ j \<le> x"
    by (simp add: divide_le_eq)
  have b: "x \<le> of_int \<lceil>x * 2 ^ j\<rceil> / 2 ^ j"
    by (simp add: le_divide_eq)
  show "of_int \<lfloor>x * 2 ^ j\<rfloor> / 2 ^ j \<le> fl x"
    using fl_mono[OF P a] fl_dyadic[OF P f j] by simp
  show "fl x \<le> of_int \<lceil>x * 2 ^ j\<rceil> / 2 ^ j"
    using fl_mono[OF P b] fl_dyadic[OF P c j] by simp
qed

lemma fl_err:
  assumes P: "binary64_like fl" and j: "j \<le> 40" and x: "\<bar>x\<bar> * 2 ^ j \<le> 2 ^ 52"
  shows "\<bar>fl x - x\<bar> \<le> 1 / 2 ^ j"
proof -
  have p: "(0::real) < 2 ^ j" by simp
  have "of_int \<lfloor>x * 2 ^ j\<rfloor> > x * 2 ^ j - 1" by linarith
  then have "of_int \<lfloor>x * 2 ^ j\<rfloor> / 2 ^ j > (x * 2 ^ j - 1) / 2 ^ j"
    using p by (simp add: divide_strict_right_mono)
  then have lo: "of_int \<lfloor>x * 2 ^ j\<rfloor> / 2 ^ j > x - 1 / 2 ^ j" by (simp add: diff_divide_distrib)
  have "of_int \<lceil>x * 2 ^ j\<rceil> < x * 2 ^ j + 1" by linarith
  then have "of_int \<lceil>x * 2 ^ j\<rceil> / 2 ^ j < (x * 2 ^ j + 1) / 2 ^ j"
    using p by (simp add: divide_strict_right_mono)
  then have hi: "of_int \<lceil>x * 2 ^ j\<rceil> / 2 ^ j < x + 1 / 2 ^ j" by (simp add: add_divide_distrib)
  from fl_grid[OF P j x] lo hi show ?thesis unfolding abs_le_iff by linarith
qed

lemma fl_floor:
  assumes P: "binary64_like fl" and k: "\<bar>k\<bar> \<le> 2 ^ 22"
    and lo: "of_int k \<le> x" and hi: "x \<le> of_int k + 1 - 1 / 2 ^ 30"
  shows "\<lfloor>fl x\<rfloor> = k"
proof -
  have e: "of_int k + 1 - 1 / 2 ^ 30 = (of_int ((k + 1) * 2 ^ 30 - 1) :: real) / 2 ^ 30"
    by (simp add: field_simps)
  have "\<bar>(k + 1) * 2 ^ 30 - 1\<bar> \<le> (2 ^ 53 :: int)" using k by (simp add: abs_le_iff)
  then have b: "fl (of_int k + 1 - 1 / 2 ^ 30) = of_int k + 1 - 1 / 2 ^ 30"
    unfolding e by (intro fl_dyadic[OF P]) simp_all
  have "\<bar>k\<bar> \<le> (2 ^ 53 :: int)" using k by simp
  then have a: "fl (of_int k) = of_int k" by (rule fl_int[OF P])
  from fl_bracket[OF P lo hi a b] have "of_int k \<le> fl x" "fl x < of_int k + 1" by simp_all
  then show ?thesis by (rule floor_unique)
qed

lemma fl_floor_gen:
  assumes P: "binary64_like fl" and j: "j \<le> 40" and k0: "0 \<le> k" and kb: "(k + 1) * 2 ^ j \<le> 2 ^ 53"
    and lo: "of_int k \<le> x" and hi: "x \<le> of_int k + 1 - 1 / 2 ^ j"
  shows "\<lfloor>fl x\<rfloor> = k" and "c_int (fl x) = k"
proof -
  have e: "of_int k + 1 - 1 / 2 ^ j = (of_int ((k + 1) * 2 ^ j - 1) :: real) / 2 ^ j"
    by (simp add: diff_divide_distrib)
  have "(1::int) \<le> 2 ^ j" by simp
  then have "(k + 1) * 1 \<le> (k + 1) * 2 ^ j" using k0 by (intro mult_left_mono) simp_all
  then have k1: "k + 1 \<le> (k + 1) * 2 ^ j" by simp
  have "0 \<le> (k + 1) * 2 ^ j - 1" using k1 k0 by linarith
  then have "\<bar>(k + 1) * 2 ^ j - 1\<bar> \<le> (2 ^ 53 :: int)" using kb by linarith
  then have b: "fl (of_int k + 1 - 1 / 2 ^ j) = of_int k + 1 - 1 / 2 ^ j"
    unfolding e by (rule fl_dyadic[OF P _ j])
  have "\<bar>k\<bar> \<le> (2 ^ 53 :: int)" using k0 k1 kb by linarith
  then have a: "fl (of_int k) = of_int k" by (rule fl_int[OF P])
  have "(0::real) < 1 / 2 ^ j" by simp
  with fl_bracket[OF P lo hi a b] have r: "of_int k \<le> fl x" "fl x < of_int k + 1" by linarith+
  then show f: "\<lfloor>fl x\<rfloor> = k" by (rule floor_unique)
  have "0 \<le> fl x" using r(1) k0 by linarith
  then show "c_int (fl x) = k" using f by (simp add: c_int_def)
qed

lemma fl_int_small:
  assumes P: "binary64_like fl" and a: "0 \<le> a" "a \<le> 4000000"
  shows "fl (of_int a) = of_int a"
proof -
  from a have "\<bar>a\<bar> \<le> 9007199254740992" by linarith
  then have "\<bar>a\<bar> \<le> 2 ^ 53" by (simp only: power_numeral_eval_53)
  then show ?thesis by (rule fl_int[OF P])
qed

section \<open>incGpsTime\<close>

lemma div1000:
  fixes a :: int
  shows "a div 1000 * 1000 \<le> a" and "a < a div 1000 * 1000 + 1000"
proof -
  have "0 \<le> a mod 1000" "a mod 1000 < 1000" by simp_all
  moreover have "a = a div 1000 * 1000 + a mod 1000" by simp
  ultimately show "a div 1000 * 1000 \<le> a" and "a < a div 1000 * 1000 + 1000" by linarith+
qed

lemma ms_bounds:
  "ms_lo n * 1000 \<le> n * 1048576" "n * 1048576 < ms_lo n * 1000 + 1000"
  "n * 1048576 \<le> ms_hi n * 1000" "ms_hi n * 1000 < n * 1048576 + 1000"
proof -
  show "ms_lo n * 1000 \<le> n * 1048576" "n * 1048576 < ms_lo n * 1000 + 1000"
    unfolding ms_lo_def by (rule div1000)+
  define d where "d = (- n * 1048576) div 1000"
  have h: "ms_hi n = - d" unfolding ms_hi_def d_def ..
  from div1000[of "- n * 1048576"] have "d * 1000 \<le> - n * 1048576" "- n * 1048576 < d * 1000 + 1000"
    unfolding d_def .
  then show "n * 1048576 \<le> ms_hi n * 1000" "ms_hi n * 1000 < n * 1048576 + 1000"
    unfolding h by linarith+
qed

lemma ms_bounds_real:
  "(of_int (ms_lo n) :: real) * 1000 \<le> of_int n * 1048576"
  "(of_int n :: real) * 1048576 < of_int (ms_lo n) * 1000 + 1000"
  "(of_int n :: real) * 1048576 \<le> of_int (ms_hi n) * 1000"
  "(of_int (ms_hi n) :: real) * 1000 < of_int n * 1048576 + 1000"
proof -
  have "(of_int (ms_lo n * 1000) :: real) \<le> of_int (n * 1048576)"
    by (simp only: of_int_le_iff ms_bounds)
  then show "(of_int (ms_lo n) :: real) * 1000 \<le> of_int n * 1048576" by simp
  have "(of_int (n * 1048576) :: real) < of_int (ms_lo n * 1000 + 1000)"
    by (simp only: of_int_less_iff ms_bounds)
  then show "(of_int n :: real) * 1048576 < of_int (ms_lo n) * 1000 + 1000" by simp
  have "(of_int (n * 1048576) :: real) \<le> of_int (ms_hi n * 1000)"
    by (simp only: of_int_le_iff ms_bounds)
  then show "(of_int n :: real) * 1048576 \<le> of_int (ms_hi n) * 1000" by simp
  have "(of_int (ms_hi n * 1000) :: real) < of_int (n * 1048576 + 1000)"
    by (simp only: of_int_less_iff ms_bounds)
  then show "(of_int (ms_hi n) :: real) * 1000 < of_int n * 1048576 + 1000" by simp
qed

lemma ms_near_scaled:
  assumes "ms_near n x"
  shows "of_int (ms_lo n) \<le> x * 1048576" and "x * 1048576 \<le> of_int (ms_hi n)"
proof -
  from assms have a: "of_int (ms_lo n) / 1048576 \<le> x" and b: "x \<le> of_int (ms_hi n) / 1048576"
    unfolding ms_near_def by simp_all
  from a have "of_int (ms_lo n) / 1048576 * 1048576 \<le> x * 1048576"
    by (rule mult_right_mono) simp
  then show "of_int (ms_lo n) \<le> x * 1048576" by simp
  from b have "x * 1048576 \<le> of_int (ms_hi n) / 1048576 * 1048576"
    by (rule mult_right_mono) simp
  then show "x * 1048576 \<le> of_int (ms_hi n)" by simp
qed

lemma ms_near_err:
  assumes "ms_near n x"
  shows "\<bar>x - of_int n / 1000\<bar> \<le> 1 / 1000000"
proof -
  define y :: real where "y = of_int n / 1000"
  have y: "of_int n = y * 1000" unfolding y_def by simp
  from ms_near_scaled[OF assms] ms_bounds_real[of n] show ?thesis
    unfolding y_def[symmetric] y abs_le_iff by linarith
qed

lemma ms_near_ge:
  assumes "ms_near n x"
  shows "604800 \<le> x \<longleftrightarrow> 604800000 \<le> n"
proof -
  note b = ms_near_scaled[OF assms]
  show ?thesis
  proof
    assume "604800 \<le> x"
    with b(2) ms_bounds_real(4)[of n] have "(604800000 :: real) - 1 < of_int n" by linarith
    then show "604800000 \<le> n" by linarith
  next
    assume "604800000 \<le> n"
    then have "634178764800 * 1000 \<le> n * 1048576" by simp
    with ms_bounds(2)[of n] have "634178764800 \<le> ms_lo n" by linarith
    then have "(634178764800 :: real) \<le> of_int (ms_lo n)" by linarith
    with b(1) show "604800 \<le> x" by linarith
  qed
qed

lemma ms_near_neg:
  assumes "ms_near n x"
  shows "x < 0 \<longleftrightarrow> n < 0"
proof -
  note b = ms_near_scaled[OF assms]
  show ?thesis
  proof
    assume "x < 0"
    with b(1) have "(of_int (ms_lo n) :: real) < 0" by linarith
    then have "ms_lo n < 0" by linarith
    with ms_bounds(2)[of n] show "n < 0" by linarith
  next
    assume "n < 0"
    then have "n * 1048576 + 1000 \<le> 0" by linarith
    with ms_bounds(4)[of n] have "ms_hi n < 0" by linarith
    then have "(of_int (ms_hi n) :: real) < 0" by linarith
    with b(2) show "x < 0" by linarith
  qed
qed

lemma ms_lo_shift: "ms_lo (n + k * 604800000) = ms_lo n + k * 634178764800"
proof -
  have "(n + k * 604800000) * 1048576 = n * 1048576 + (k * 634178764800) * 1000" by simp
  then show ?thesis unfolding ms_lo_def by simp
qed

lemma ms_hi_shift: "ms_hi (n + k * 604800000) = ms_hi n + k * 634178764800"
proof -
  have "- (n + k * 604800000) * 1048576 = - n * 1048576 + (- k * 634178764800) * 1000" by simp
  then show ?thesis unfolding ms_hi_def by simp
qed

lemma ms_grid_exact:
  assumes P: "binary64_like fl" and n: "\<bar>n\<bar> \<le> 10000000000"
  shows "fl (of_int (ms_lo n) / 2 ^ 20) = of_int (ms_lo n) / 2 ^ 20"
    and "fl (of_int (ms_hi n) / 2 ^ 20) = of_int (ms_hi n) / 2 ^ 20"
proof -
  from n have "- 10000000000 \<le> n" "n \<le> 10000000000" by linarith+
  with ms_bounds[of n] have "\<bar>ms_lo n\<bar> \<le> 9007199254740992" "\<bar>ms_hi n\<bar> \<le> 9007199254740992"
    unfolding abs_le_iff by linarith+
  then have l: "\<bar>ms_lo n\<bar> \<le> 2 ^ 53" and h: "\<bar>ms_hi n\<bar> \<le> 2 ^ 53"
    by (simp_all only: power_numeral_eval_53)
  have j: "(20::nat) \<le> 40" by simp
  show "fl (of_int (ms_lo n) / 2 ^ 20) = of_int (ms_lo n) / 2 ^ 20"
    by (rule fl_dyadic[OF P l j])
  show "fl (of_int (ms_hi n) / 2 ^ 20) = of_int (ms_hi n) / 2 ^ 20"
    by (rule fl_dyadic[OF P h j])
qed

lemma ms_near_fl:
  assumes P: "binary64_like fl" and n: "\<bar>n\<bar> \<le> 10000000000"
  shows "ms_near n (fl (of_int n / 1000))"
proof -
  have a: "of_int (ms_lo n) / 2 ^ 20 \<le> (of_int n :: real) / 1000"
    using ms_bounds_real(1)[of n] by (simp add: field_simps)
  have b: "(of_int n :: real) / 1000 \<le> of_int (ms_hi n) / 2 ^ 20"
    using ms_bounds_real(3)[of n] by (simp add: field_simps)
  from fl_bracket[OF P a b ms_grid_exact[OF P n]] show ?thesis unfolding ms_near_def by simp
qed

lemma ms_near_step:
  assumes P: "binary64_like fl" and n: "\<bar>n + k * 604800000\<bar> \<le> 10000000000" and x: "ms_near n x"
  shows "ms_near (n + k * 604800000) (fl (x + of_int k * 604800))"
proof -
  have l: "(of_int (ms_lo n + k * 634178764800) :: real) / 2 ^ 20 = of_int (ms_lo n) / 2 ^ 20 + of_int k * 604800"
    by (simp add: add_divide_distrib)
  have h: "(of_int (ms_hi n + k * 634178764800) :: real) / 2 ^ 20 = of_int (ms_hi n) / 2 ^ 20 + of_int k * 604800"
    by (simp add: add_divide_distrib)
  from x have x1: "of_int (ms_lo n) / 2 ^ 20 \<le> x" and x2: "x \<le> of_int (ms_hi n) / 2 ^ 20"
    unfolding ms_near_def by blast+
  have a: "of_int (ms_lo (n + k * 604800000)) / 2 ^ 20 \<le> x + of_int k * 604800"
    unfolding ms_lo_shift l using x1 by linarith
  have b: "x + of_int k * 604800 \<le> of_int (ms_hi (n + k * 604800000)) / 2 ^ 20"
    unfolding ms_hi_shift h using x2 by linarith
  from fl_bracket[OF P a b ms_grid_exact[OF P n]] show ?thesis unfolding ms_near_def by blast
qed

lemma down_loop:
  assumes P: "binary64_like fl"
  shows "ms_near n (sec g) \<Longrightarrow> \<bar>n\<bar> \<le> 10000000000 \<Longrightarrow> n < (int k + 1) * 604800000 \<Longrightarrow>
    \<exists>g' j. incGpsTime_down fl g = Some g' \<and> 0 \<le> j \<and> j \<le> int k \<and> week g' = week g + j
       \<and> ms_near (n - j * 604800000) (sec g') \<and> n - j * 604800000 < 604800000
       \<and> (0 \<le> n \<longrightarrow> 0 \<le> n - j * 604800000) \<and> (n < 604800000 \<longrightarrow> j = 0)"
proof (induction k arbitrary: n g)
  case 0
  then have "n < 604800000" by simp
  with ms_near_ge[OF 0(1)] have "\<not> sec g \<ge> SECONDS_IN_WEEK" by (simp add: SECONDS_IN_WEEK_def)
  then have "incGpsTime_down fl g = Some g" by (subst incGpsTime_down.simps) simp
  with 0 \<open>n < 604800000\<close> show ?case by simp
next
  case (Suc k)
  show ?case
  proof (cases "n < 604800000")
    case True
    with ms_near_ge[OF Suc(2)] have "\<not> sec g \<ge> SECONDS_IN_WEEK" by (simp add: SECONDS_IN_WEEK_def)
    then have "incGpsTime_down fl g = Some g" by (subst incGpsTime_down.simps) simp
    with Suc(2) True show ?thesis by simp
  next
    case False
    define g2 where "g2 = g\<lparr>sec := fl (sec g - SECONDS_IN_WEEK), week := week g + 1\<rparr>"
    from False ms_near_ge[OF Suc(2)] have ge: "sec g \<ge> SECONDS_IN_WEEK" by (simp add: SECONDS_IN_WEEK_def)
    then have st: "incGpsTime_down fl g = incGpsTime_down fl g2"
      unfolding g2_def by (subst incGpsTime_down.simps) simp
    have b: "\<bar>n + (- 1) * 604800000\<bar> \<le> 10000000000" using False Suc(3) by simp
    from ms_near_step[OF P b Suc(2)] have nr: "ms_near (n - 604800000) (sec g2)"
      unfolding g2_def by (simp add: SECONDS_IN_WEEK_def)
    have b': "\<bar>n - 604800000\<bar> \<le> 10000000000" using b by simp
    have lt: "n - 604800000 < (int k + 1) * 604800000" using Suc(4) by (simp add: algebra_simps)
    from Suc.IH[OF nr b' lt] obtain g' j where
      r: "incGpsTime_down fl g2 = Some g'" "0 \<le> j" "j \<le> int k" "week g' = week g2 + j"
         "ms_near (n - 604800000 - j * 604800000) (sec g')" "n - 604800000 - j * 604800000 < 604800000"
         "0 \<le> n - 604800000 \<longrightarrow> 0 \<le> n - 604800000 - j * 604800000"
      by blast
    have e: "n - (j + 1) * 604800000 = n - 604800000 - j * 604800000" by (simp add: algebra_simps)
    have "incGpsTime_down fl g = Some g' \<and> 0 \<le> j + 1 \<and> j + 1 \<le> int (Suc k) \<and> week g' = week g + (j + 1)
       \<and> ms_near (n - (j + 1) * 604800000) (sec g') \<and> n - (j + 1) * 604800000 < 604800000
       \<and> (0 \<le> n \<longrightarrow> 0 \<le> n - (j + 1) * 604800000) \<and> (n < 604800000 \<longrightarrow> j + 1 = 0)"
      unfolding e st using r False by (simp add: g2_def)
    then show ?thesis by blast
  qed
qed

lemma up_loop:
  assumes P: "binary64_like fl"
  shows "ms_near n (sec g) \<Longrightarrow> \<bar>n\<bar> \<le> 10000000000 \<Longrightarrow> - (int k * 604800000) \<le> n \<Longrightarrow> n < 604800000 \<Longrightarrow>
    \<exists>g' j. incGpsTime_up fl g = Some g' \<and> 0 \<le> j \<and> j \<le> int k \<and> week g' = week g - j
       \<and> ms_near (n + j * 604800000) (sec g') \<and> 0 \<le> n + j * 604800000
       \<and> n + j * 604800000 < 604800000"
proof (induction k arbitrary: n g)
  case 0
  then have "\<not> n < 0" by simp
  with ms_near_neg[OF 0(1)] have "\<not> sec g < 0" by simp
  then have "incGpsTime_up fl g = Some g" by (subst incGpsTime_up.simps) simp
  with 0 show ?case by simp
next
  case (Suc k)
  show ?case
  proof (cases "0 \<le> n")
    case True
    with ms_near_neg[OF Suc(2)] have "\<not> sec g < 0" by simp
    then have "incGpsTime_up fl g = Some g" by (subst incGpsTime_up.simps) simp
    with Suc(2,5) True show ?thesis by simp
  next
    case False
    define g2 where "g2 = g\<lparr>sec := fl (sec g + SECONDS_IN_WEEK), week := week g - 1\<rparr>"
    from False ms_near_neg[OF Suc(2)] have ge: "sec g < 0" by simp
    then have st: "incGpsTime_up fl g = incGpsTime_up fl g2"
      unfolding g2_def by (subst incGpsTime_up.simps) simp
    have b: "\<bar>n + 1 * 604800000\<bar> \<le> 10000000000" using False Suc(3) by simp
    from ms_near_step[OF P b Suc(2)] have nr: "ms_near (n + 604800000) (sec g2)"
      unfolding g2_def by (simp add: SECONDS_IN_WEEK_def)
    have b': "\<bar>n + 604800000\<bar> \<le> 10000000000" using b by simp
    have lo: "- (int k * 604800000) \<le> n + 604800000" using Suc(4) by (simp add: algebra_simps)
    have hi: "n + 604800000 < 604800000" using False by simp
    from Suc.IH[OF nr b' lo hi] obtain g' j where
      r: "incGpsTime_up fl g2 = Some g'" "0 \<le> j" "j \<le> int k" "week g' = week g2 - j"
         "ms_near (n + 604800000 + j * 604800000) (sec g')" "0 \<le> n + 604800000 + j * 604800000"
         "n + 604800000 + j * 604800000 < 604800000"
      by blast
    have e: "n + (j + 1) * 604800000 = n + 604800000 + j * 604800000" by (simp add: algebra_simps)
    have "incGpsTime_up fl g = Some g' \<and> 0 \<le> j + 1 \<and> j + 1 \<le> int (Suc k) \<and> week g' = week g - (j + 1)
       \<and> ms_near (n + (j + 1) * 604800000) (sec g') \<and> 0 \<le> n + (j + 1) * 604800000
       \<and> n + (j + 1) * 604800000 < 604800000"
      unfolding e st using r by (simp add: g2_def)
    then show ?thesis by blast
  qed
qed

lemma c_round_int: "\<exists>n::int. c_round x = of_int n \<and> \<bar>of_int n - x\<bar> \<le> 1 / 2"
proof (cases "0 \<le> x")
  case True
  have "of_int \<lfloor>x + 1 / 2\<rfloor> \<le> x + 1 / 2" "x + 1 / 2 < of_int \<lfloor>x + 1 / 2\<rfloor> + 1" by linarith+
  then have "\<bar>of_int \<lfloor>x + 1 / 2\<rfloor> - x\<bar> \<le> 1 / 2" unfolding abs_le_iff by linarith
  moreover have "c_round x = of_int \<lfloor>x + 1 / 2\<rfloor>" using True by (simp add: c_round_def)
  ultimately show ?thesis by blast
next
  case False
  have "of_int \<lfloor>- x + 1 / 2\<rfloor> \<le> - x + 1 / 2" "- x + 1 / 2 < of_int \<lfloor>- x + 1 / 2\<rfloor> + 1" by linarith+
  then have "\<bar>of_int (- \<lfloor>- x + 1 / 2\<rfloor>) - x\<bar> \<le> 1 / 2" unfolding abs_le_iff of_int_minus by linarith
  moreover have "c_round x = of_int (- \<lfloor>- x + 1 / 2\<rfloor>)" using False by (simp add: c_round_def)
  ultimately show ?thesis by blast
qed

lemma fl_int_bracket:
  assumes P: "binary64_like fl" and a: "\<bar>a\<bar> \<le> 2 ^ 53" and b: "\<bar>b\<bar> \<le> 2 ^ 53"
    and lo: "of_int a \<le> x" and hi: "x \<le> of_int b"
  shows "of_int a \<le> fl x" and "fl x \<le> of_int b"
  using fl_bracket[OF P lo hi fl_int[OF P a] fl_int[OF P b]] .

text \<open>
  Claim C8. With seconds of week in \<open>[0, 604800)\<close> and \<open>|dt|\<close> at most ten weeks,
  incGpsTime returns (both loops end), the seconds returned are in \<open>[0, 604800)\<close>, the time
  returned is \<open>g0 + dt\<close> up to 1 ms, and the week moves by at most 11. The argument
  \<open>g0\<close> is a value: the function has no access to the caller's copy.
\<close>

theorem incGpsTime_normalised:
  assumes P: "binary64_like fl" and s0: "0 \<le> sec g0" "sec g0 < 604800" and dt: "\<bar>dt\<bar> \<le> 6048000"
  shows "\<exists>g1. incGpsTime fl g0 dt = Some g1 \<and> 0 \<le> sec g1 \<and> sec g1 < 604800
          \<and> \<bar>(of_int (week g1) * 604800 + sec g1) - (of_int (week g0) * 604800 + sec g0 + dt)\<bar> \<le> 1 / 1000
          \<and> \<bar>week g1 - week g0\<bar> \<le> 11"
proof -
  define a where "a = sec g0 + dt"
  define s1 where "s1 = fl a"
  define p where "p = fl (s1 * 1000)"
  have a: "of_int (- 6048000) \<le> a" "a \<le> of_int 6652800"
    unfolding a_def using s0 dt by (simp_all add: abs_le_iff)
  have s1b: "of_int (- 6048000) \<le> s1" "s1 \<le> of_int 6652800"
    unfolding s1_def by (rule fl_int_bracket[OF P _ _ a]; simp)+
  have "\<bar>a\<bar> \<le> 6652800" using a by (simp add: abs_le_iff)
  then have "\<bar>a\<bar> * 2 ^ 29 \<le> 2 ^ 52" by simp
  from fl_err[OF P _ this] have s1e: "\<bar>s1 - a\<bar> \<le> 1 / 2 ^ 29" unfolding s1_def by simp
  have m: "of_int (- 6048000000) \<le> s1 * 1000" "s1 * 1000 \<le> of_int 6652800000"
    using s1b by simp_all
  have pb: "of_int (- 6048000000) \<le> p" "p \<le> of_int 6652800000"
    unfolding p_def by (rule fl_int_bracket[OF P _ _ m]; simp)+
  have "\<bar>s1 * 1000\<bar> \<le> 6652800000" using m by (simp add: abs_le_iff)
  then have "\<bar>s1 * 1000\<bar> * 2 ^ 19 \<le> 2 ^ 52" by simp
  from fl_err[OF P _ this] have pe: "\<bar>p - s1 * 1000\<bar> \<le> 1 / 2 ^ 19" unfolding p_def by simp
  from c_round_int[of p] obtain n :: int where n: "c_round p = of_int n" and ne: "\<bar>of_int n - p\<bar> \<le> 1 / 2"
    by blast
  have "(of_int n :: real) \<le> 6652800000 + 1 / 2" "- 6048000000 - 1 / 2 \<le> (of_int n :: real)"
    using ne pb unfolding abs_le_iff by simp_all
  then have nb: "n \<le> 6652800000" "- 6048000000 \<le> n" by linarith+
  then have nabs: "\<bar>n\<bar> \<le> 10000000000" by simp
  define s2 where "s2 = fl (of_int n / 1000)"
  define ga :: gpstime_t where "ga = \<lparr>week = week g0, sec = s2\<rparr>"
  have near: "ms_near n (sec ga)" unfolding ga_def s2_def using ms_near_fl[OF P nabs] by simp
  have "n < (int 11 + 1) * 604800000" using nb by simp
  from down_loop[OF P near nabs this] obtain gb j where
    d: "incGpsTime_down fl ga = Some gb" "0 \<le> j" "j \<le> 11" "week gb = week ga + j"
       "ms_near (n - j * 604800000) (sec gb)" "n - j * 604800000 < 604800000"
       "0 \<le> n \<longrightarrow> 0 \<le> n - j * 604800000" "n < 604800000 \<longrightarrow> j = 0"
    by auto
  define n' where "n' = n - j * 604800000"
  have n'lo: "- (int 10 * 604800000) \<le> n'"
  proof (cases "0 \<le> n")
    case True
    with d(7) show ?thesis unfolding n'_def by simp
  next
    case False
    with d(8) have "j = 0" by simp
    with nb show ?thesis unfolding n'_def by simp
  qed
  have n'abs: "\<bar>n'\<bar> \<le> 10000000000" using n'lo d(6) unfolding n'_def by simp
  from up_loop[OF P d(5)[folded n'_def] n'abs n'lo d(6)[folded n'_def]] obtain gc i where
    u: "incGpsTime_up fl gb = Some gc" "0 \<le> i" "i \<le> 10" "week gc = week gb - i"
       "ms_near (n' + i * 604800000) (sec gc)" "0 \<le> n' + i * 604800000"
       "n' + i * 604800000 < 604800000"
    by auto
  define r where "r = n' + i * 604800000"
  have res: "incGpsTime fl g0 dt = Some gc"
    unfolding incGpsTime_def Let_def
    using d(1) u(1) n unfolding ga_def s2_def p_def s1_def a_def by simp
  have w: "week gc = week g0 + j - i" using u(4) d(4) unfolding ga_def by simp
  have c1: "0 \<le> sec gc" using ms_near_neg[OF u(5)] u(6) by simp
  have c2: "sec gc < 604800" using ms_near_ge[OF u(5)] u(7) by simp
  have c4: "\<bar>week gc - week g0\<bar> \<le> 11" unfolding w using d(2,3) u(2,3) by simp
  have re: "(of_int r :: real) / 1000 = of_int n / 1000 - of_int j * 604800 + of_int i * 604800"
    unfolding r_def n'_def by simp
  have we: "(of_int (week gc) :: real) = of_int (week g0) + of_int j - of_int i" unfolding w by simp
  from ms_near_err[OF u(5)] have e1: "\<bar>sec gc - of_int r / 1000\<bar> \<le> 1 / 1000000" unfolding r_def .
  have e2: "\<bar>of_int n - a * 1000\<bar> \<le> 1 / 2 + 1 / 524288 + 1000 / 536870912"
    using ne pe s1e unfolding abs_le_iff by simp
  have "\<bar>of_int n / 1000 - a\<bar> \<le> (1 / 2 + 1 / 524288 + 1000 / 536870912) / 1000"
  proof -
    have "of_int n / 1000 - a = (of_int n - a * 1000) / 1000" by (simp add: diff_divide_distrib)
    then show ?thesis using e2 by (simp only: abs_divide) simp
  qed
  then have e3: "\<bar>of_int n / 1000 - a\<bar> \<le> 501 / 1000000" by simp
  have c3: "\<bar>(of_int (week gc) * 604800 + sec gc) - (of_int (week g0) * 604800 + sec g0 + dt)\<bar> \<le> 1 / 1000"
    using e1 e3 unfolding re we a_def abs_le_iff by (simp add: algebra_simps)
  from res c1 c2 c3 c4 show ?thesis by blast
qed

text \<open>
  One tenth of a second across the end of week 2000, with the rounding that changes
  nothing: the week becomes 2001.
\<close>

theorem incGpsTime_normalised_witness:
  "incGpsTime no_rounding \<lparr>week = 2000, sec = 604799.95\<rparr> 0.1 = Some \<lparr>week = 2001, sec = 0.05\<rparr>
   \<and> (\<exists>g1. incGpsTime no_rounding \<lparr>week = 2000, sec = 604799.95\<rparr> 0.1 = Some g1 \<and> 0 \<le> sec g1
          \<and> sec g1 < 604800
          \<and> \<bar>(of_int (week g1) * 604800 + sec g1) - (of_int 2000 * 604800 + 604799.95 + 0.1)\<bar> \<le> 1 / 1000
          \<and> \<bar>week g1 - 2000\<bar> \<le> 11)"
proof -
  have P: "binary64_like no_rounding" by (simp add: binary64_like_def no_rounding_def)
  have d: "incGpsTime_down no_rounding \<lparr>week = 2000, sec = 12096001 / 20\<rparr> = Some \<lparr>week = 2001, sec = 1 / 20\<rparr>"
    by (subst incGpsTime_down.simps, subst incGpsTime_down.simps) (simp add: SECONDS_IN_WEEK_def no_rounding_def)
  have u: "incGpsTime_up no_rounding \<lparr>week = 2001, sec = 1 / 20\<rparr> = Some \<lparr>week = 2001, sec = 1 / 20\<rparr>"
    by (subst incGpsTime_up.simps) simp
  have r: "c_round 604800050 / 1000 = 12096001 / 20" by (simp add: c_round_def)
  have v: "incGpsTime no_rounding \<lparr>week = 2000, sec = 604799.95\<rparr> 0.1 = Some \<lparr>week = 2001, sec = 0.05\<rparr>"
    unfolding incGpsTime_def Let_def by (simp add: no_rounding_def r d u)
  from incGpsTime_normalised[OF P, of "\<lparr>week = 2000, sec = 604799.95\<rparr>" "0.1"] v show ?thesis by simp
qed

section \<open>RINEX set boundaries\<close>

text \<open>
  Claim C6. Let \<open>a\<close> be the anchor TOC of the current set (the record's own TOC when no
  record has been read yet) and \<open>dt = (sec g - sec a) + (week g - week a) * 604800\<close> the
  difference between the record's parsed TOC \<open>g\<close> and the anchor, which is what subGpsTime
  returns. The record increments the set index and resets the anchor to \<open>g\<close> exactly when
  \<open>dt\<close> is strictly greater than 3600 s; the record is then stored in the new set (unless
  the table of 13 sets is full, where the loop ends). Otherwise the index and the anchor
  stay and the record is stored in the current set. (The parsed TOCs are whole seconds, so
  the double arithmetic of subGpsTime is exact on them.)
\<close>

theorem readRinex_new_set_iff:
  "let a = (if week anchor = - 1 then g else anchor);
       dt = sec g - sec a + of_int (week g - week a) * 604800;
       b = readRinex_record (sv, g) (anchor, i, tab);
       brk = fst b; anchor' = fst (snd b); i' = fst (snd (snd b)); tab' = snd (snd (snd b))
   in subGpsTime g a = dt
    \<and> ((i' = i + 1 \<and> anchor' = g) \<longleftrightarrow> dt > 3600)
    \<and> (dt > 3600 \<longrightarrow>
         (if i + 1 \<ge> EPHEM_ARRAY_SIZE then brk \<and> tab' = tab
          else \<not> brk \<and> tab' = tab(i + 1 := (tab (i + 1))(sv \<mapsto> g))))
    \<and> (\<not> dt > 3600 \<longrightarrow>
         \<not> brk \<and> i' = i \<and> anchor' = a \<and> tab' = tab(i := (tab i)(sv \<mapsto> g)))"
  by (simp add: readRinex_record_def readRinex_toc_def subGpsTime_def Let_def SECONDS_IN_HOUR_def
      SECONDS_IN_WEEK_def)

text \<open>
  With the anchor one hour before the end of week 1824 and set index 0: a record at 1 s
  of week 1825 (3601 s later) opens set 1, a record at 0 s of week 1825 (exactly 3600 s
  later) stays in set 0.
\<close>

theorem readRinex_new_set_iff_witness:
  "fst (snd (snd (readRinex_record (4, \<lparr>week = 1825, sec = 1\<rparr>)
       (\<lparr>week = 1824, sec = 601200\<rparr>, 0, \<lambda>i. Map.empty)))) = 1
   \<and> fst (snd (snd (readRinex_record (4, \<lparr>week = 1825, sec = 0\<rparr>)
       (\<lparr>week = 1824, sec = 601200\<rparr>, 0, \<lambda>i. Map.empty)))) = 0"
  using readRinex_new_set_iff[of "\<lparr>week = 1824, sec = 601200\<rparr>" "\<lparr>week = 1825, sec = 1\<rparr>" 4 0 "\<lambda>i. Map.empty"]
      readRinex_new_set_iff[of "\<lparr>week = 1824, sec = 601200\<rparr>" "\<lparr>week = 1825, sec = 0\<rparr>" 4 0 "\<lambda>i. Map.empty"]
  by (simp add: Let_def)

section \<open>codegen: frame\<close>

lemma allocateChannel_sv_ca:
  assumes "i < length (chan s)"
  shows "ca (chan (snd (allocateChannel_sv vis init sv (n, s))) ! i) = ca (chan s ! i)
       \<or> ca (chan (snd (allocateChannel_sv vis init sv (n, s))) ! i)
           = codegen (ca (chan s ! i)) (int sv + 1)"
  using assms
  by (cases "i = first_idle MAX_CHAN 0 (chan s)"; cases "i = nat (allocatedSat s ! sv)")
     (simp_all add: allocateChannel_sv_def Let_def)

text \<open>
  Claim C10. For every PRN outside \<open>[1, 32]\<close> codegen returns the caller's array
  unchanged. In the scheduler, the step for satellite index \<open>sv < 32\<close> leaves every
  channel's C/A table either as it was or as codegen writes it for the PRN \<open>sv + 1\<close>,
  which lies in \<open>[1, 32]\<close>.
\<close>

theorem codegen_frame:
  "(p < 1 \<or> 32 < p \<longrightarrow> codegen arr p = arr)
   \<and> (sv < MAX_SAT \<longrightarrow> 1 \<le> int sv + 1 \<and> int sv + 1 \<le> 32
        \<and> (\<forall>i<length (chan s).
              ca (chan (snd (allocateChannel_sv vis init sv (n, s))) ! i) = ca (chan s ! i)
            \<or> ca (chan (snd (allocateChannel_sv vis init sv (n, s))) ! i)
                = codegen (ca (chan s ! i)) (int sv + 1)))"
proof (intro conjI impI allI)
  assume "p < 1 \<or> 32 < p"
  then show "codegen arr p = arr" by (auto simp add: codegen_def)
next
  show "1 \<le> int sv + 1" by simp
next
  assume "sv < MAX_SAT"
  then show "int sv + 1 \<le> 32" by (simp add: MAX_SAT_def)
next
  fix i assume "i < length (chan s)"
  then show "ca (chan (snd (allocateChannel_sv vis init sv (n, s))) ! i) = ca (chan s ! i)
            \<or> ca (chan (snd (allocateChannel_sv vis init sv (n, s))) ! i)
                = codegen (ca (chan s ! i)) (int sv + 1)"
    by (rule allocateChannel_sv_ca)
qed

text \<open>PRNs 0, 33 and -5 leave a three-element array alone.\<close>

theorem codegen_frame_witness:
  "codegen [1, 0, 1] 0 = [1, 0, 1] \<and> codegen [1, 0, 1] 33 = [1, 0, 1]
   \<and> codegen [1, 0, 1] (- 5) = [1, 0, 1]"
proof -
  have "codegen [1, 0, 1] 0 = [1, 0, 1]"
    by (rule mp[OF conjunct1[OF codegen_frame]]) simp
  moreover have "codegen [1, 0, 1] 33 = [1, 0, 1]"
    by (rule mp[OF conjunct1[OF codegen_frame]]) simp
  moreover have "codegen [1, 0, 1] (- 5) = [1, 0, 1]"
    by (rule mp[OF conjunct1[OF codegen_frame]]) simp
  ultimately show ?thesis by blast
qed

section \<open>Calendar round trip\<close>

lemma months_1980_1983: "list_all (\<lambda>yr. list_all (month_ok yr) [1..12]) [1980..1983]"
  by code_simp

lemma month_ok_base:
  assumes "1980 \<le> yr" "yr \<le> 1983" "1 \<le> mo" "mo \<le> 12"
  shows "month_ok yr mo"
proof -
  have "yr \<in> set [1980..1983]" "mo \<in> set [1..12]" using assms by auto
  with months_1980_1983 show ?thesis unfolding list_all_iff by blast
qed

lemma century: "1980 \<le> (yr::int) \<Longrightarrow> yr \<le> 2099 \<Longrightarrow> yr mod 100 \<noteq> 0 \<or> yr mod 400 = 0"
  by presburger

lemma days_in_month_shift:
  "1980 \<le> yr \<Longrightarrow> yr + 4 \<le> 2099 \<Longrightarrow> days_in_month (yr + 4) mo = days_in_month yr mo"
  using century[of yr] century[of "yr + 4"] by (simp add: days_in_month_def)

lemma day_count_shift: "day_count (yr + 4) mo dy = day_count yr mo dy + 1461"
proof -
  have d: "(yr + 4 - 1980) div 4 = (yr - 1980) div 4 + 1"
    and m: "(yr + 4 - 1980) mod 4 = (yr - 1980) mod 4" by presburger+
  have l: "(yr + 4 - 1980) * 365 = (yr - 1980) * 365 + 1460" by simp
  show ?thesis unfolding day_count_def Let_def d m l by simp
qed

lemma jd_D_shift: "jd_D (c + 1461) = jd_D c + 4"
proof -
  have "20 * (c + 1461) - 2442 = (20 * c - 2442) + 4 * 7305" by simp
  then show ?thesis unfolding jd_D_def by simp
qed

lemma jd_E_shift: "jd_E (c + 1461) = jd_E c + 1461"
  unfolding jd_E_def jd_D_shift by simp

lemma F_of_shift: "F_of (c + 1461) (e + 1461) = F_of c e"
  by (simp add: F_of_def)

lemma jd_F_shift: "jd_F (c + 1461) = jd_F c"
  unfolding jd_F_def jd_E_shift by (rule F_of_shift)

lemma jd2date_shift:
  "jd2date (c + 1461) = (fst (jd2date c) + 4, fst (snd (jd2date c)), snd (snd (jd2date c)))"
  unfolding jd2date_def jd_F_shift jd_E_shift jd_D_shift by (simp add: Let_def)

lemma month_ok_shift:
  assumes "month_ok yr mo" "1980 \<le> yr" "yr + 4 \<le> 2099"
  shows "month_ok (yr + 4) mo"
proof -
  let ?c1 = "day_count yr mo 1 + 2445782"
  let ?c2 = "day_count yr mo (days_in_month yr mo) + 2445782"
  have a: "day_count (yr + 4) mo 1 + 2445782 = ?c1 + 1461"
    and b: "day_count (yr + 4) mo (days_in_month (yr + 4) mo) + 2445782 = ?c2 + 1461"
    by (simp_all add: day_count_shift days_in_month_shift[OF assms(2,3)])
  from assms(1) show ?thesis
    unfolding month_ok_def Let_def a b jd_D_shift jd_E_shift jd_F_shift jd2date_shift F_of_shift
    by (simp add: prod_eq_iff)
qed

lemma month_ok_steps:
  "month_ok yr mo \<Longrightarrow> 1980 \<le> yr \<Longrightarrow> yr + 4 * int k \<le> 2099 \<Longrightarrow> month_ok (yr + 4 * int k) mo"
proof (induction k)
  case 0
  then show ?case by simp
next
  case (Suc k)
  then have "month_ok (yr + 4 * int k) mo" by simp
  from month_ok_shift[OF this] Suc.prems show ?case by (simp add: algebra_simps)
qed

lemma month_ok_all:
  assumes "1980 \<le> yr" "yr \<le> 2099" "1 \<le> mo" "mo \<le> 12"
  shows "month_ok yr mo"
proof -
  define y0 where "y0 = 1980 + (yr - 1980) mod 4"
  define k where "k = nat ((yr - 1980) div 4)"
  have "0 \<le> (yr - 1980) div 4" using assms(1) by (simp add: pos_imp_zdiv_nonneg_iff)
  then have "int k = (yr - 1980) div 4" unfolding k_def by simp
  then have y: "yr = y0 + 4 * int k" unfolding y0_def by presburger
  have "1980 \<le> y0" "y0 \<le> 1983" unfolding y0_def by simp_all
  then have "month_ok y0 mo" using assms(3,4) by (intro month_ok_base)
  from month_ok_steps[OF this \<open>1980 \<le> y0\<close>, of k] assms(2) show ?thesis unfolding y by simp
qed

lemma day_count_linear: "day_count yr mo dy = day_count yr mo 1 + (dy - 1)"
  by (simp add: day_count_def Let_def)

lemma day_in_month:
  assumes ok: "month_ok yr mo" and d: "1 \<le> dy" "dy \<le> days_in_month yr mo"
  shows "jd2date (day_count yr mo dy + 2445782) = (yr, mo, dy)
         \<and> 0 \<le> day_count yr mo dy + 2445782 - jd_E (day_count yr mo dy + 2445782)"
proof -
  define c1 where "c1 = day_count yr mo 1 + 2445782"
  define c2 where "c2 = day_count yr mo (days_in_month yr mo) + 2445782"
  define c where "c = day_count yr mo dy + 2445782"
  have c: "c = c1 + (dy - 1)" unfolding c_def c1_def by (subst day_count_linear) simp
  have c2: "c2 = c1 + (days_in_month yr mo - 1)" unfolding c2_def c1_def by (subst day_count_linear) simp
  have le: "c1 \<le> c" "c \<le> c2" unfolding c c2 using d by simp_all
  from ok have D2: "jd_D c2 = jd_D c1" and F2: "F_of c2 (jd_E c1) = jd_F c1"
    and nn: "0 \<le> c1 - jd_E c1" and j1: "jd2date c1 = (yr, mo, 1)"
    unfolding month_ok_def Let_def c1_def c2_def by blast+
  have "jd_D c1 \<le> jd_D c" "jd_D c \<le> jd_D c2"
    unfolding jd_D_def using le by (intro zdiv_mono1; simp)+
  then have D: "jd_D c = jd_D c1" using D2 by simp
  then have E: "jd_E c = jd_E c1" unfolding jd_E_def by simp
  have "F_of c1 (jd_E c1) \<le> F_of c (jd_E c1)" "F_of c (jd_E c1) \<le> F_of c2 (jd_E c1)"
    unfolding F_of_def using le by (intro zdiv_mono1; simp)+
  then have F: "jd_F c = jd_F c1" using F2 unfolding jd_F_def E by simp
  have "jd2date c = (fst (jd2date c1), fst (snd (jd2date c1)), snd (snd (jd2date c1)) + (c - c1))"
    unfolding jd2date_def Let_def D E F by simp
  then have "jd2date c = (yr, mo, dy)" unfolding j1 c by simp
  moreover have "0 \<le> c - jd_E c" unfolding E using nn le by simp
  ultimately show ?thesis unfolding c_def by blast
qed

lemma c_int_of_int: "c_int (of_int z) = z"
  by (simp add: c_int_def)

lemma c_int_nonneg: "0 \<le> x \<Longrightarrow> c_int x = \<lfloor>x\<rfloor>"
  by (simp add: c_int_def)

lemma sdiv_nonneg: "0 \<le> a \<Longrightarrow> 0 < b \<Longrightarrow> a sdiv b = (a::int) div b"
  by (cases "a = 0") (simp_all add: signed_divide_int_def)

lemma smod_nonneg: "0 \<le> a \<Longrightarrow> 0 < b \<Longrightarrow> a smod b = (a::int) mod b"
  by (cases "a = 0") (simp_all add: signed_modulo_int_def)
lemma mod_add_mult: "0 \<le> (m::int) \<Longrightarrow> m < k \<Longrightarrow> (m + k * q) mod k = m"
  by simp

lemma doy_bounds:
  assumes "1 \<le> mo" "mo \<le> 12"
  shows "0 \<le> doy ! nat (mo - 1)" and "2 \<le> mo \<longrightarrow> 31 \<le> doy ! nat (mo - 1)"
proof -
  from assms have "mo = 1 \<or> mo = 2 \<or> mo = 3 \<or> mo = 4 \<or> mo = 5 \<or> mo = 6 \<or> mo = 7 \<or> mo = 8
      \<or> mo = 9 \<or> mo = 10 \<or> mo = 11 \<or> mo = 12" by presburger
  then show "0 \<le> doy ! nat (mo - 1)" and "2 \<le> mo \<longrightarrow> 31 \<le> doy ! nat (mo - 1)"
    by (elim disjE; simp add: doy_def)+
qed

lemma day_count_nonneg:
  assumes "1980 \<le> yr" "1 \<le> mo" "mo \<le> 12" "1 \<le> dy" "yr = 1980 \<and> mo = 1 \<longrightarrow> 6 \<le> dy"
  shows "0 \<le> day_count yr mo dy"
proof (cases "yr = 1980")
  case True
  show ?thesis
  proof (cases "mo = 1")
    case True
    with \<open>yr = 1980\<close> assms(5) show ?thesis by (simp add: day_count_def doy_def)
  next
    case False
    then have "2 \<le> mo" using assms(2) by simp
    with doy_bounds(2)[OF assms(2,3)] have "31 \<le> doy ! nat (mo - 1)" by simp
    with \<open>yr = 1980\<close> assms(4) show ?thesis by (simp add: day_count_def Let_def)
  qed
next
  case False
  then have y: "1 \<le> yr - 1980" using assms(1) by simp
  then have "0 \<le> (yr - 1980) div 4" by (simp add: pos_imp_zdiv_nonneg_iff)
  moreover have "365 \<le> (yr - 1980) * 365" using y by simp
  moreover note doy_bounds(1)[OF assms(2,3)] assms(4)
  ultimately show ?thesis unfolding day_count_def Let_def by (simp split: if_splits)
qed
lemma rem_D: "(20 * c - 2442) mod 7305 \<noteq> (0::int)"
proof
  assume "(20 * c - 2442) mod 7305 = 0"
  then have "7305 dvd 20 * c - 2442" by (simp add: dvd_eq_mod_eq_0)
  moreover have "(5::int) dvd 7305" by simp
  ultimately have "5 dvd 20 * c - 2442" by (rule dvd_trans[rotated])
  then show False by presburger
qed

lemma n_bounds: "123 \<le> c - jd_E c" "c - jd_E c \<le> 488"
proof -
  define D where "D = jd_D c"
  define q where "q = D div 4"
  have "0 \<le> (20 * c - 2442) mod 7305" "(20 * c - 2442) mod 7305 < 7305" by simp_all
  moreover have "20 * c - 2442 = 7305 * D + (20 * c - 2442) mod 7305"
    unfolding D_def jd_D_def by simp
  ultimately have a: "7305 * D \<le> 20 * c - 2442" "20 * c - 2442 < 7305 * D + 7305" by linarith+
  have "0 \<le> D mod 4" "D mod 4 < 4" by simp_all
  moreover have "D = 4 * q + D mod 4" unfolding q_def by simp
  ultimately have b: "4 * q \<le> D" "D < 4 * q + 4" by linarith+
  have e: "jd_E c = 365 * D + q" unfolding jd_E_def D_def q_def ..
  show "123 \<le> c - jd_E c" "c - jd_E c \<le> 488" unfolding e using a b by linarith+
qed

lemma rem_G:
  assumes "1 \<le> f" "f \<le> 15"
  shows "(306001 * f) mod 10000 \<noteq> (0::int)"
proof -
  from assms have "f = 1 \<or> f = 2 \<or> f = 3 \<or> f = 4 \<or> f = 5 \<or> f = 6 \<or> f = 7 \<or> f = 8
      \<or> f = 9 \<or> f = 10 \<or> f = 11 \<or> f = 12 \<or> f = 13 \<or> f = 14 \<or> f = 15" by presburger
  then show ?thesis by (elim disjE; simp)
qed

lemma fl_1221:
  assumes P: "binary64_like fl"
  shows "\<bar>fl 122.1 - 122.1\<bar> \<le> 1 / 2 ^ 40"
  by (rule fl_err[OF P]) simp_all

lemma fl_306001:
  assumes P: "binary64_like fl"
  shows "\<bar>fl 30.6001 - 30.6001\<bar> \<le> 1 / 2 ^ 40"
  by (rule fl_err[OF P]) simp_all

lemma fl_floor_D:
  assumes P: "binary64_like fl" and c: "123 \<le> c" "c \<le> 4000000"
  shows "c_int (fl (fl (of_int c - fl 122.1) / 365.25)) = jd_D c"
proof -
  define b where "b = fl 122.1"
  define u where "u = fl (of_int c - b)"
  define D where "D = jd_D c"
  define r where "r = (20 * c - 2442) mod 7305"
  have r: "1 \<le> r" "r \<le> 7304"
  proof -
    have "0 \<le> r" "r < 7305" unfolding r_def by simp_all
    moreover have "r \<noteq> 0" unfolding r_def by (rule rem_D)
    ultimately show "1 \<le> r" "r \<le> 7304" by linarith+
  qed
  have i: "20 * c - 2442 = 7305 * D + r" unfolding D_def jd_D_def r_def by simp
  have D: "0 \<le> D" "D \<le> 10951" using i r c by linarith+
  have "(of_int (20 * c - 2442) :: real) = of_int (7305 * D + r)" by (simp only: i)
  then have ir: "20 * (of_int c :: real) - 2442 = 7305 * of_int D + of_int r" by simp
  have rr: "1 \<le> (of_int r :: real)" "(of_int r :: real) \<le> 7304" using r by linarith+
  have cr: "123 \<le> (of_int c :: real)" "(of_int c :: real) \<le> 4000000" using c by linarith+
  have be: "\<bar>b - 122.1\<bar> \<le> 1 / 2 ^ 40" unfolding b_def by (rule fl_1221[OF P])
  then have be': "b \<le> 122.1 + 1 / 1099511627776" "122.1 - 1 / 1099511627776 \<le> b"
    unfolding abs_le_iff by simp_all
  have "\<bar>of_int c - b\<bar> \<le> 4000000" using be' cr unfolding abs_le_iff by linarith
  then have "\<bar>of_int c - b\<bar> * 2 ^ 30 \<le> 2 ^ 52" by simp
  from fl_err[OF P _ this] have "\<bar>u - (of_int c - b)\<bar> \<le> 1 / 2 ^ 30" unfolding u_def by simp
  then have ue: "u \<le> of_int c - b + 1 / 1073741824" "of_int c - b - 1 / 1073741824 \<le> u"
    unfolding abs_le_iff by simp_all
  have lo: "of_int D * (1461 / 4) \<le> u" using ue be' ir rr by linarith
  have "u \<le> of_int D * (1461 / 4) + 1461 / 4 - 1461 / 4294967296" using ue be' ir rr by linarith
  also have "\<dots> = (of_int D + 1 - 1 / 1073741824) * (1461 / 4)" by (simp add: algebra_simps)
  finally have hi: "u \<le> (of_int D + 1 - 1 / 1073741824) * (1461 / 4)" .
  have x1: "of_int D \<le> u / 365.25" using lo by (simp add: pos_le_divide_eq)
  have "u / (1461 / 4) \<le> of_int D + 1 - 1 / 1073741824" using hi by (simp add: pos_divide_le_eq)
  then have x2: "u / 365.25 \<le> of_int D + 1 - 1 / 2 ^ 30" by simp
  have kb: "(D + 1) * 2 ^ 30 \<le> 2 ^ 53" using D by simp
  show ?thesis unfolding D_def[symmetric] b_def[symmetric] u_def[symmetric]
    by (rule fl_floor_gen(2)[OF P _ D(1) kb x1 x2]) simp
qed

lemma fl_floor_F:
  assumes P: "binary64_like fl" and n: "123 \<le> n" "n \<le> 488"
  shows "c_int (fl (of_int n / fl 30.6001)) = (10000 * n) div 306001"
    and "4 \<le> (10000 * n) div 306001" and "(10000 * n) div 306001 \<le> 15"
proof -
  define b where "b = fl 30.6001"
  define F where "F = (10000 * n) div 306001"
  define r where "r = (10000 * n) mod 306001"
  have i: "10000 * n = 306001 * F + r" unfolding F_def r_def by simp
  have r0: "0 \<le> r" "r < 306001" unfolding r_def by simp_all
  have F: "4 \<le> F" "F \<le> 15" using i r0 n by linarith+
  have "r \<noteq> 0"
  proof
    assume "r = 0"
    with i have "306001 * F = n * 10000" by simp
    then have "(306001 * F) mod 10000 = 0" by simp
    moreover have "(306001 * F) mod 10000 \<noteq> 0" using F by (intro rem_G) simp_all
    ultimately show False by simp
  qed
  with r0 have r: "1 \<le> r" "r \<le> 306000" by linarith+
  have "(of_int (10000 * n) :: real) = of_int (306001 * F + r)" by (simp only: i)
  then have ir: "10000 * (of_int n :: real) = 306001 * of_int F + of_int r" by simp
  have rr: "1 \<le> (of_int r :: real)" "(of_int r :: real) \<le> 306000" using r by linarith+
  have Fr: "4 \<le> (of_int F :: real)" "(of_int F :: real) \<le> 15" using F by linarith+
  have be: "\<bar>b - 30.6001\<bar> \<le> 1 / 2 ^ 40" unfolding b_def by (rule fl_306001[OF P])
  then have be': "b \<le> (306001 / 10000) + 1 / 1099511627776" "(306001 / 10000) - 1 / 1099511627776 \<le> b"
    unfolding abs_le_iff by simp_all
  then have bp: "0 < b" by linarith
  have "of_int F * b \<le> of_int F * ((306001 / 10000) + 1 / 1099511627776)"
    using be'(1) Fr by (intro mult_left_mono) simp_all
  also have "\<dots> = (306001 / 10000) * of_int F + of_int F / 1099511627776" by (simp add: algebra_simps)
  also have "\<dots> \<le> of_int n" using ir rr Fr by linarith
  finally have x1: "of_int F \<le> of_int n / b" using bp by (simp add: pos_le_divide_eq)
  have "(of_int n :: real) \<le> (306001 / 10000) * of_int F + (306001 / 10000) - (306001 / 10000) / 1073741824 - 16 / 1099511627776"
    using ir rr Fr by linarith
  also have "\<dots> \<le> (of_int F + 1 - 1 / 1073741824) * ((306001 / 10000) - 1 / 1099511627776)"
    using Fr by (simp add: algebra_simps)
  also have "\<dots> \<le> (of_int F + 1 - 1 / 1073741824) * b"
    using be'(2) Fr by (intro mult_left_mono) simp_all
  finally have "of_int n / b \<le> of_int F + 1 - 1 / 1073741824" using bp by (simp add: pos_divide_le_eq)
  then have x2: "of_int n / b \<le> of_int F + 1 - 1 / 2 ^ 30" by simp
  have kb: "(F + 1) * 2 ^ 30 \<le> 2 ^ 53" using F by simp
  have F0: "0 \<le> F" using F by simp
  show "c_int (fl (of_int n / fl 30.6001)) = (10000 * n) div 306001"
    unfolding F_def[symmetric] b_def[symmetric]
    by (rule fl_floor_gen(2)[OF P _ F0 kb x1 x2]) simp
  show "4 \<le> (10000 * n) div 306001" "(10000 * n) div 306001 \<le> 15" using F unfolding F_def .
qed

lemma fl_floor_day:
  assumes P: "binary64_like fl" and f: "1 \<le> f" "f \<le> 15"
  shows "c_int (fl (fl 30.6001 * of_int f)) = (306001 * f) div 10000"
proof -
  define b where "b = fl 30.6001"
  define G where "G = (306001 * f) div 10000"
  define r where "r = (306001 * f) mod 10000"
  have i: "306001 * f = 10000 * G + r" unfolding G_def r_def by simp
  have r0: "0 \<le> r" "r < 10000" unfolding r_def by simp_all
  moreover have "r \<noteq> 0" unfolding r_def by (rule rem_G[OF f])
  ultimately have r: "1 \<le> r" "r \<le> 9999" by linarith+
  have G: "0 \<le> G" "G \<le> 459" using i r0 f by linarith+
  have "(of_int (306001 * f) :: real) = of_int (10000 * G + r)" by (simp only: i)
  then have ir: "306001 * (of_int f :: real) = 10000 * of_int G + of_int r" by simp
  have rr: "1 \<le> (of_int r :: real)" "(of_int r :: real) \<le> 9999" using r by linarith+
  have fr: "1 \<le> (of_int f :: real)" "(of_int f :: real) \<le> 15" using f by linarith+
  have be: "\<bar>b - 30.6001\<bar> \<le> 1 / 2 ^ 40" unfolding b_def by (rule fl_306001[OF P])
  then have be': "b \<le> (306001 / 10000) + 1 / 1099511627776" "(306001 / 10000) - 1 / 1099511627776 \<le> b"
    unfolding abs_le_iff by simp_all
  have "b * of_int f \<le> ((306001 / 10000) + 1 / 1099511627776) * of_int f"
    using be'(1) fr by (intro mult_right_mono) simp_all
  also have "\<dots> = (306001 / 10000) * of_int f + of_int f / 1099511627776" by (simp add: algebra_simps)
  also have "\<dots> \<le> of_int G + 1 - 1 / 1073741824" using ir rr fr by linarith
  finally have "b * of_int f \<le> of_int G + 1 - 1 / 1073741824" .
  then have x2: "b * of_int f \<le> of_int G + 1 - 1 / 2 ^ 30" by simp
  have "(of_int G :: real) \<le> (306001 / 10000) * of_int f - of_int f / 1099511627776" using ir rr fr by linarith
  also have "\<dots> = ((306001 / 10000) - 1 / 1099511627776) * of_int f" by (simp add: algebra_simps)
  also have "\<dots> \<le> b * of_int f" using be'(2) fr by (intro mult_right_mono) simp_all
  finally have x1: "of_int G \<le> b * of_int f" .
  have kb: "(G + 1) * 2 ^ 30 \<le> 2 ^ 53" using G by simp
  show ?thesis unfolding G_def[symmetric] b_def[symmetric]
    by (rule fl_floor_gen(2)[OF P _ G(1) kb x1 x2]) simp
qed

lemma fl_tod:
  fixes r hh mm :: int and s :: real
  assumes P: "binary64_like fl"
    and r: "0 \<le> r" "r \<le> 6" and h: "0 \<le> hh" "hh < 24" and m: "0 \<le> mm" "mm < 60"
    and s: "0 \<le> s" "s \<le> 59.999999"
  defines "S \<equiv> fl (fl (fl (fl (of_int r * 86400) + fl (of_int hh * 3600)) + fl (of_int mm * 60)) + s)"
  shows "\<lfloor>fl (S / 86400)\<rfloor> = r" and "c_int (fl (S / 3600)) = r * 24 + hh"
    and "c_int (fl (S / 60)) = r * 1440 + hh * 60 + mm"
    and "\<lfloor>fl (S / 60)\<rfloor> = r * 1440 + hh * 60 + mm"
    and "\<bar>fl (S - fl (60 * of_int (r * 1440 + hh * 60 + mm))) - s\<bar> \<le> 1 / 1000"
proof -
  define I where "I = r * 86400 + hh * 3600 + mm * 60"
  have Ib: "0 \<le> I" "I \<le> 604740" unfolding I_def using r h m by linarith+
  have Ir: "(of_int I :: real) = of_int r * 86400 + of_int hh * 3600 + of_int mm * 60"
    unfolding I_def by simp
  have rr: "0 \<le> (of_int r :: real)" "(of_int r :: real) \<le> 6" using r by linarith+
  have hr: "0 \<le> (of_int hh :: real)" "(of_int hh :: real) \<le> 23" using h by linarith+
  have mr: "0 \<le> (of_int mm :: real)" "(of_int mm :: real) \<le> 59" using m by linarith+
  have s': "s \<le> 60 - 1 / 1048576" using s(2) by simp
  have S: "S = fl (of_int I + s)"
  proof -
    have b1: "0 \<le> r * 86400" "r * 86400 \<le> 4000000" using r by simp_all
    have b2: "0 \<le> hh * 3600" "hh * 3600 \<le> 4000000" using h by simp_all
    have b3: "0 \<le> mm * 60" "mm * 60 \<le> 4000000" using m by simp_all
    have b4: "0 \<le> r * 86400 + hh * 3600" "r * 86400 + hh * 3600 \<le> 4000000" using r h by simp_all
    have b5: "0 \<le> I" "I \<le> 4000000" using Ib by simp_all
    have e1: "fl (of_int r * 86400) = of_int (r * 86400)" using fl_int_small[OF P b1] by simp
    have e2: "fl (of_int hh * 3600) = of_int (hh * 3600)" using fl_int_small[OF P b2] by simp
    have e3: "fl (of_int mm * 60) = of_int (mm * 60)" using fl_int_small[OF P b3] by simp
    have e4: "fl (of_int (r * 86400) + of_int (hh * 3600)) = of_int (r * 86400 + hh * 3600)"
      using fl_int_small[OF P b4] by simp
    have e5: "fl (of_int (r * 86400 + hh * 3600) + of_int (mm * 60)) = of_int I"
      using fl_int_small[OF P b5] unfolding I_def by simp
    show ?thesis unfolding S_def by (simp only: e1 e2 e3 e4 e5)
  qed
  have top: "of_int I + 60 - 1 / 2 ^ 20 = (of_int ((I + 60) * 2 ^ 20 - 1) :: real) / 2 ^ 20"
    by (simp add: diff_divide_distrib)
  have "\<bar>(I + 60) * 2 ^ 20 - 1\<bar> \<le> 9007199254740992" using Ib by simp
  then have "\<bar>(I + 60) * 2 ^ 20 - 1\<bar> \<le> (2 ^ 53 :: int)" by (simp only: power_numeral_eval_53)
  then have ft: "fl (of_int I + 60 - 1 / 2 ^ 20) = of_int I + 60 - 1 / 2 ^ 20"
    unfolding top by (rule fl_dyadic[OF P]) simp
  have fb: "fl (of_int I) = of_int I" using Ib by (intro fl_int_small[OF P]) simp_all
  have a1: "of_int I \<le> of_int I + s" using s(1) by simp
  have a2: "of_int I + s \<le> of_int I + 60 - 1 / 2 ^ 20" using s' by simp
  from fl_bracket[OF P a1 a2 fb ft] have Sb: "of_int I \<le> S" "S \<le> of_int I + 60 - 1 / 1048576"
    unfolding S by simp_all
  have "\<bar>of_int I + s\<bar> \<le> 604800" using Ib s(1) s' unfolding abs_le_iff by simp
  then have "\<bar>of_int I + s\<bar> * 2 ^ 32 \<le> 2 ^ 52" by simp
  from fl_err[OF P _ this] have "\<bar>S - (of_int I + s)\<bar> \<le> 1 / 2 ^ 32" unfolding S by simp
  then have Se: "S - of_int I - s \<le> 1 / 4294967296" "- (1 / 4294967296) \<le> S - of_int I - s"
    unfolding abs_le_iff by simp_all

  have "of_int r * 86400 \<le> S" using Sb Ir hr mr by linarith
  then have d1: "of_int r \<le> S / 86400" by (simp add: pos_le_divide_eq)
  have "S \<le> of_int r * 86400 + 86400 - 86400 / 137438953472" using Sb Ir hr mr by linarith
  also have "\<dots> = (of_int r + 1 - 1 / 137438953472) * 86400" by (simp add: algebra_simps)
  finally have "S / 86400 \<le> of_int r + 1 - 1 / 137438953472" by (simp add: pos_divide_le_eq)
  then have d2: "S / 86400 \<le> of_int r + 1 - 1 / 2 ^ 37" by simp
  have kd: "(r + 1) * 2 ^ 37 \<le> 2 ^ 53" using r by simp
  show "\<lfloor>fl (S / 86400)\<rfloor> = r" by (rule fl_floor_gen(1)[OF P _ r(1) kd d1 d2]) simp

  define kh where "kh = r * 24 + hh"
  have kh: "0 \<le> kh" "kh \<le> 167" unfolding kh_def using r h by linarith+
  have khr: "(of_int kh :: real) * 3600 = of_int r * 86400 + of_int hh * 3600" unfolding kh_def by simp
  have "of_int kh * 3600 \<le> S" using khr Sb Ir hr mr by linarith
  then have h1: "of_int kh \<le> S / 3600" by (simp add: pos_le_divide_eq)
  have "S \<le> of_int kh * 3600 + 3600 - 3600 / 4294967296" using khr Sb Ir hr mr by linarith
  also have "\<dots> = (of_int kh + 1 - 1 / 4294967296) * 3600" by (simp add: algebra_simps)
  finally have "S / 3600 \<le> of_int kh + 1 - 1 / 4294967296" by (simp add: pos_divide_le_eq)
  then have h2: "S / 3600 \<le> of_int kh + 1 - 1 / 2 ^ 32" by simp
  have kbh: "(kh + 1) * 2 ^ 32 \<le> 2 ^ 53" using kh by simp
  show "c_int (fl (S / 3600)) = r * 24 + hh"
    unfolding kh_def[symmetric] by (rule fl_floor_gen(2)[OF P _ kh(1) kbh h1 h2]) simp

  define km where "km = r * 1440 + hh * 60 + mm"
  have km: "0 \<le> km" "km \<le> 10079" unfolding km_def using r h m by linarith+
  have kmr: "(of_int km :: real) * 60 = of_int I" unfolding km_def I_def by simp
  have "of_int km * 60 \<le> S" using kmr Sb by linarith
  then have m1: "of_int km \<le> S / 60" by (simp add: pos_le_divide_eq)
  have "S \<le> of_int km * 60 + 60 - 60 / 67108864" using kmr Sb by linarith
  also have "\<dots> = (of_int km + 1 - 1 / 67108864) * 60" by (simp add: algebra_simps)
  finally have "S / 60 \<le> of_int km + 1 - 1 / 67108864" by (simp add: pos_divide_le_eq)
  then have m2: "S / 60 \<le> of_int km + 1 - 1 / 2 ^ 26" by simp
  have kbm: "(km + 1) * 2 ^ 26 \<le> 2 ^ 53" using km by simp
  show "c_int (fl (S / 60)) = r * 1440 + hh * 60 + mm"
    unfolding km_def[symmetric] by (rule fl_floor_gen(2)[OF P _ km(1) kbm m1 m2]) simp
  show "\<lfloor>fl (S / 60)\<rfloor> = r * 1440 + hh * 60 + mm"
    unfolding km_def[symmetric] by (rule fl_floor_gen(1)[OF P _ km(1) kbm m1 m2]) simp

  have "60 * (of_int km :: real) = of_int I" using kmr by simp
  then have f60: "fl (60 * of_int km) = of_int I" using fb by simp
  have "\<bar>S - of_int I\<bar> \<le> 60" using Sb unfolding abs_le_iff by simp
  then have "\<bar>S - of_int I\<bar> * 2 ^ 40 \<le> 2 ^ 52" by simp
  from fl_err[OF P _ this] have "\<bar>fl (S - of_int I) - (S - of_int I)\<bar> \<le> 1 / 2 ^ 40" by simp
  then have "fl (S - of_int I) - (S - of_int I) \<le> 1 / 1099511627776"
    "- (1 / 1099511627776) \<le> fl (S - of_int I) - (S - of_int I)"
    unfolding abs_le_iff by simp_all
  with Se have "\<bar>fl (S - of_int I) - s\<bar> \<le> 1 / 1000" unfolding abs_le_iff by linarith
  then show "\<bar>fl (S - fl (60 * of_int (r * 1440 + hh * 60 + mm))) - s\<bar> \<le> 1 / 1000"
    unfolding km_def[symmetric] f60 .
qed

lemma doy_upper:
  assumes "1 \<le> mo" "mo \<le> 12"
  shows "doy ! nat (mo - 1) \<le> 334"
proof -
  from assms have "mo = 1 \<or> mo = 2 \<or> mo = 3 \<or> mo = 4 \<or> mo = 5 \<or> mo = 6 \<or> mo = 7 \<or> mo = 8
      \<or> mo = 9 \<or> mo = 10 \<or> mo = 11 \<or> mo = 12" by presburger
  then show ?thesis by (elim disjE; simp add: doy_def)
qed

lemma day_count_upper:
  assumes "1980 \<le> yr" "yr \<le> 2099" "1 \<le> mo" "mo \<le> 12" "dy \<le> days_in_month yr mo"
  shows "day_count yr mo dy \<le> 50000"
proof -
  have "days_in_month yr mo \<le> 31" by (simp add: days_in_month_def)
  with assms(5) have d: "dy \<le> 31" by linarith
  have "0 \<le> (yr - 1980) mod 4" by simp
  moreover have "yr - 1980 = 4 * ((yr - 1980) div 4) + (yr - 1980) mod 4" by simp
  ultimately have q: "4 * ((yr - 1980) div 4) \<le> yr - 1980" by linarith
  have y: "(yr - 1980) * 365 \<le> 43435" using assms(2) by simp
  from q assms(2) have "(yr - 1980) div 4 \<le> 29" by linarith
  with y d doy_upper[OF assms(3,4)] show ?thesis
    unfolding day_count_def Let_def by (simp split: if_splits)
qed

lemma date2gps_form:
  assumes y: "1980 \<le> t_y t" and de: "0 \<le> day_count (t_y t) (t_m t) (t_d t)"
  shows "date2gps fl t = \<lparr>week = day_count (t_y t) (t_m t) (t_d t) div 7,
           sec = fl (fl (fl (fl (of_int (day_count (t_y t) (t_m t) (t_d t) mod 7) * 86400)
                             + fl (of_int (t_hh t) * 3600))
                         + fl (of_int (t_mm t) * 60))
                     + t_sec t)\<rparr>"
proof -
  have h1: "(t_y t - 1980) sdiv 4 = (t_y t - 1980) div 4"
    and h2: "(t_y t - 1980) smod 4 = (t_y t - 1980) mod 4"
    using y by (simp_all add: sdiv_nonneg smod_nonneg)
  have A: "date2gps fl t = \<lparr>week = day_count (t_y t) (t_m t) (t_d t) sdiv 7,
           sec = fl (fl (fl (fl (of_int (day_count (t_y t) (t_m t) (t_d t) smod 7) * SECONDS_IN_DAY)
                             + fl (of_int (t_hh t) * SECONDS_IN_HOUR))
                         + fl (of_int (t_mm t) * SECONDS_IN_MINUTE))
                     + t_sec t)\<rparr>"
    by (simp only: date2gps_def Let_def day_count_def h1 h2)
  have s7: "day_count (t_y t) (t_m t) (t_d t) sdiv 7 = day_count (t_y t) (t_m t) (t_d t) div 7"
    and m7: "day_count (t_y t) (t_m t) (t_d t) smod 7 = day_count (t_y t) (t_m t) (t_d t) mod 7"
    using de by (simp_all add: sdiv_nonneg smod_nonneg)
  show ?thesis unfolding A s7 m7 SECONDS_IN_DAY_def SECONDS_IN_HOUR_def SECONDS_IN_MINUTE_def ..
qed

lemma gps2date_calendar:
  assumes P: "binary64_like fl"
    and fd: "\<lfloor>fl (sec g / 86400)\<rfloor> = r" and r: "0 \<le> r" "r \<le> 6"
    and w: "0 \<le> week g" "week g \<le> 10000"
    and c: "c = 7 * week g + r + 2445782"
    and res: "jd2date c = (yr, mo, dy)" and mo: "1 \<le> mo"
  shows "gps2date fl g = \<lparr>t_y = yr, t_m = mo, t_d = dy,
           t_hh = c_int (fl (sec g / 3600)) smod 24,
           t_mm = c_int (fl (sec g / 60)) smod 60,
           t_sec = fl (sec g - fl (60 * of_int \<lfloor>fl (sec g / 60)\<rfloor>))\<rparr>"
proof -
  have b1: "0 \<le> 7 * week g + r" "7 * week g + r \<le> 4000000" using w r by simp_all
  have b2: "0 \<le> 7 * week g + r + 2444245" "7 * week g + r + 2444245 \<le> 4000000" using w r by simp_all
  have e1: "fl (of_int (7 * week g) + of_int r) = of_int (7 * week g + r)"
    using fl_int_small[OF P b1] by simp
  have e2: "fl (of_int (7 * week g + r) + 2444245) = of_int (7 * week g + r + 2444245)"
    using fl_int_small[OF P b2] by simp
  have ec: "c_int (fl (fl (of_int (7 * week g) + of_int \<lfloor>fl (sec g / 86400)\<rfloor>) + 2444245)) + 1537 = c"
    unfolding fd e1 e2 c_int_of_int c by simp
  have cb: "123 \<le> c" "c \<le> 4000000" unfolding c using w r by simp_all
  have ed: "c_int (fl (fl (of_int c - fl 122.1) / 365.25)) = jd_D c" by (rule fl_floor_D[OF P cb])
  have Dnn: "0 \<le> jd_D c" unfolding jd_D_def using cb by (simp add: pos_imp_zdiv_nonneg_iff)
  have ee: "365 * jd_D c + jd_D c sdiv 4 = jd_E c" unfolding jd_E_def using Dnn by (simp add: sdiv_nonneg)
  note nb = n_bounds[of c]
  have ef: "c_int (fl (of_int (c - jd_E c) / fl 30.6001)) = jd_F c"
    unfolding jd_F_def F_of_def by (rule fl_floor_F(1)[OF P nb])
  have Fb: "4 \<le> jd_F c" "jd_F c \<le> 15"
    unfolding jd_F_def F_of_def by (rule fl_floor_F(2)[OF P nb], rule fl_floor_F(3)[OF P nb])
  have F1: "1 \<le> jd_F c" using Fb by simp
  have eday: "c_int (fl (fl 30.6001 * of_int (jd_F c))) = (306001 * jd_F c) div 10000"
    by (rule fl_floor_day[OF P F1 Fb(2)])
  have e14: "jd_F c sdiv 14 = jd_F c div 14" using Fb by (simp add: sdiv_nonneg)
  from res have raw: "jd_D c - 4715 - ((7 + (jd_F c - 1 - 12 * (jd_F c div 14))) div 10) = yr
      \<and> jd_F c - 1 - 12 * (jd_F c div 14) = mo
      \<and> c - jd_E c - (306001 * jd_F c) div 10000 = dy"
    unfolding jd2date_def Let_def prod.inject .
  then have rm: "jd_F c - 1 - 12 * (jd_F c div 14) = mo"
    and rd: "c - jd_E c - (306001 * jd_F c) div 10000 = dy" by blast+
  from raw have ry: "jd_D c - 4715 - ((7 + mo) div 10) = yr" by (simp only: rm)
  have e10: "(7 + mo) sdiv 10 = (7 + mo) div 10" using mo by (simp add: sdiv_nonneg)
  show ?thesis
    unfolding gps2date_def Let_def
    by (simp only: ec ed ee ef eday e14 rm e10 ry rd)
qed

text \<open>
  Claim C3, amended. For every calendar time from 6 January 1980, the GPS epoch, to the
  end of 2099, with valid Gregorian fields and seconds in \<open>[0, 59.999999]\<close>, gps2date
  after date2gps gives year, month, day, hour and minute back, and the seconds within 1 ms,
  whatever the rounding of the double operations.
\<close>

theorem date_roundtrip:
  assumes P: "binary64_like fl" and v: "valid_datetime t" and y1: "1980 \<le> t_y t" and y2: "t_y t \<le> 2099"
    and ep: "t_y t = 1980 \<and> t_m t = 1 \<longrightarrow> 6 \<le> t_d t" and smax: "t_sec t \<le> 59.999999"
  shows "t_y (gps2date fl (date2gps fl t)) = t_y t \<and> t_m (gps2date fl (date2gps fl t)) = t_m t
         \<and> t_d (gps2date fl (date2gps fl t)) = t_d t \<and> t_hh (gps2date fl (date2gps fl t)) = t_hh t
         \<and> t_mm (gps2date fl (date2gps fl t)) = t_mm t
         \<and> \<bar>t_sec (gps2date fl (date2gps fl t)) - t_sec t\<bar> \<le> 1 / 1000"
proof -
  define de where "de = day_count (t_y t) (t_m t) (t_d t)"
  define g where "g = date2gps fl t"
  from v have m: "1 \<le> t_m t" "t_m t \<le> 12" and d: "1 \<le> t_d t" "t_d t \<le> days_in_month (t_y t) (t_m t)"
    and h: "0 \<le> t_hh t" "t_hh t < 24" and mi: "0 \<le> t_mm t" "t_mm t < 60"
    and s: "0 \<le> t_sec t"
    unfolding valid_datetime_def by blast+
  have de: "0 \<le> de" unfolding de_def by (rule day_count_nonneg[OF y1 m d(1) ep])
  have deu: "de \<le> 50000" unfolding de_def by (rule day_count_upper[OF y1 y2 m d(2)])
  have gw: "week g = de div 7"
    and gs: "sec g = fl (fl (fl (fl (of_int (de mod 7) * 86400) + fl (of_int (t_hh t) * 3600))
                             + fl (of_int (t_mm t) * 60)) + t_sec t)"
    unfolding g_def de_def date2gps_form[OF y1 de[unfolded de_def]] by simp_all
  have r: "0 \<le> de mod 7" "de mod 7 \<le> 6" by simp_all
  note f = fl_tod[OF P r h mi s smax, folded gs]
  have wb: "0 \<le> week g" "week g \<le> 10000" unfolding gw using de deu by simp_all
  have c: "de + 2445782 = 7 * week g + de mod 7 + 2445782" unfolding gw by simp
  have ok: "month_ok (t_y t) (t_m t)" by (rule month_ok_all[OF y1 y2 m])
  from day_in_month[OF ok d] have res: "jd2date (de + 2445782) = (t_y t, t_m t, t_d t)"
    unfolding de_def by blast
  note cal = gps2date_calendar[OF P f(1) r wb c res m(1)]
  have e24: "de mod 7 * 24 + t_hh t = t_hh t + 24 * (de mod 7)" by simp
  have hnn: "0 \<le> de mod 7 * 24 + t_hh t" using r h by simp
  have "(de mod 7 * 24 + t_hh t) smod 24 = (de mod 7 * 24 + t_hh t) mod 24"
    by (rule smod_nonneg[OF hnn]) simp
  also have "\<dots> = t_hh t" unfolding e24 by (rule mod_add_mult[OF h])
  finally have hh: "c_int (fl (sec g / 3600)) smod 24 = t_hh t" unfolding f(2) .
  have e60: "de mod 7 * 1440 + t_hh t * 60 + t_mm t = t_mm t + 60 * (de mod 7 * 24 + t_hh t)"
    by simp
  have mnn: "0 \<le> de mod 7 * 1440 + t_hh t * 60 + t_mm t" using r h mi by simp
  have "(de mod 7 * 1440 + t_hh t * 60 + t_mm t) smod 60 = (de mod 7 * 1440 + t_hh t * 60 + t_mm t) mod 60"
    by (rule smod_nonneg[OF mnn]) simp
  also have "\<dots> = t_mm t" unfolding e60 by (rule mod_add_mult[OF mi])
  finally have mm: "c_int (fl (sec g / 60)) smod 60 = t_mm t" unfolding f(3) .
  have ss: "\<bar>fl (sec g - fl (60 * of_int \<lfloor>fl (sec g / 60)\<rfloor>)) - t_sec t\<bar> \<le> 1 / 1000"
    unfolding f(4) by (rule f(5))
  show ?thesis unfolding g_def[symmetric] cal using hh mm ss by simp
qed

text \<open>The leap day of 2000, one microsecond before midnight, with the rounding that changes nothing.\<close>

theorem date_roundtrip_witness:
  "gps2date no_rounding (date2gps no_rounding \<lparr>t_y = 2000, t_m = 2, t_d = 29, t_hh = 23, t_mm = 59, t_sec = 59.999999\<rparr>)
     = \<lparr>t_y = 2000, t_m = 2, t_d = 29, t_hh = 23, t_mm = 59, t_sec = 59.999999\<rparr>
   \<and> \<bar>t_sec (gps2date no_rounding (date2gps no_rounding
          \<lparr>t_y = 2000, t_m = 2, t_d = 29, t_hh = 23, t_mm = 59, t_sec = 59.999999\<rparr>)) - 59.999999\<bar> \<le> 1 / 1000"
proof -
  let ?t = "\<lparr>t_y = 2000, t_m = 2, t_d = 29, t_hh = 23, t_mm = 59, t_sec = 59.999999\<rparr>"
  have P: "binary64_like no_rounding" by (simp add: binary64_like_def no_rounding_def)
  have "valid_datetime ?t" by (simp add: valid_datetime_def days_in_month_def)
  moreover have "1980 \<le> t_y ?t" "t_y ?t \<le> 2099" "t_y ?t = 1980 \<and> t_m ?t = 1 \<longrightarrow> 6 \<le> t_d ?t"
    "t_sec ?t \<le> 59.999999"
    by simp_all
  moreover have "gps2date no_rounding (date2gps no_rounding ?t) = ?t" by code_simp
  ultimately show ?thesis using date_roundtrip[OF P, of ?t] by simp
qed

text \<open>
  Before the epoch the round trip fails: 1 January 1980, 01:00:00 is a valid calendar
  time of the year 1980, its day count is \<open>-5\<close>, and the hour comes back as \<open>-23\<close>.
  All the numbers of this computation are integers, which no rounding changes.
\<close>

theorem date_roundtrip_refuted:
  "valid_datetime \<lparr>t_y = 1980, t_m = 1, t_d = 1, t_hh = 1, t_mm = 0, t_sec = 0\<rparr>
   \<and> t_hh (gps2date no_rounding (date2gps no_rounding \<lparr>t_y = 1980, t_m = 1, t_d = 1, t_hh = 1, t_mm = 0, t_sec = 0\<rparr>)) = - 23"
  by code_simp

section \<open>The synthesis loop: maintenance schedule\<close>

lemma c_round_exact:
  assumes "\<bar>p - of_int N\<bar> < 1 / 2"
  shows "c_round p = of_int N"
proof (cases "0 \<le> p")
  case True
  have "of_int N \<le> p + 1 / 2" "p + 1 / 2 < of_int N + 1" using assms unfolding abs_less_iff by linarith+
  then have "\<lfloor>p + 1 / 2\<rfloor> = N" by (rule floor_unique)
  then show ?thesis using True by (simp add: c_round_def)
next
  case False
  have "of_int (- N) \<le> - p + 1 / 2" "- p + 1 / 2 < of_int (- N) + 1"
    using assms unfolding abs_less_iff by simp_all
  then have "\<lfloor>- p + 1 / 2\<rfloor> = - N" by (rule floor_unique)
  then show ?thesis using False by (simp add: c_round_def)
qed

lemma incGpsTime_grid:
  assumes P: "binary64_like fl" and e: "\<bar>sec g + dt - of_int N / 1000\<bar> \<le> 1 / 10000"
    and N: "0 \<le> N" "N < 2 * 604800000"
  shows "\<exists>g'. incGpsTime fl g dt = Some g' \<and> ms_near (N mod 604800000) (sec g')
           \<and> week g' = week g + N div 604800000"
proof -
  define a where "a = sec g + dt"
  define s1 where "s1 = fl a"
  define p where "p = fl (s1 * 1000)"
  have Nr: "0 \<le> (of_int N :: real)" "(of_int N :: real) \<le> 1209600000" using N by linarith+
  have ae: "a \<le> of_int N / 1000 + 1 / 10000" "of_int N / 1000 - 1 / 10000 \<le> a"
    using e unfolding a_def abs_le_iff by linarith+
  have "\<bar>a\<bar> \<le> 6652800" using ae Nr unfolding abs_le_iff by linarith
  then have "\<bar>a\<bar> * 2 ^ 29 \<le> 2 ^ 52" by simp
  from fl_err[OF P _ this] have "\<bar>s1 - a\<bar> \<le> 1 / 2 ^ 29" unfolding s1_def by simp
  then have s1e: "s1 \<le> a + 1 / 536870912" "a - 1 / 536870912 \<le> s1"
    unfolding abs_le_iff by simp_all
  have "\<bar>s1 * 1000\<bar> \<le> 6652800000" using s1e ae Nr unfolding abs_le_iff by linarith
  then have "\<bar>s1 * 1000\<bar> * 2 ^ 19 \<le> 2 ^ 52" by simp
  from fl_err[OF P _ this] have "\<bar>p - s1 * 1000\<bar> \<le> 1 / 2 ^ 19" unfolding p_def by simp
  then have pe: "p \<le> s1 * 1000 + 1 / 524288" "s1 * 1000 - 1 / 524288 \<le> p"
    unfolding abs_le_iff by simp_all
  have "\<bar>p - of_int N\<bar> < 1 / 2" using pe s1e ae unfolding abs_less_iff by linarith
  then have r: "c_round p = of_int N" by (rule c_round_exact)
  have nabs: "\<bar>N\<bar> \<le> 10000000000" using N by simp
  define ga :: gpstime_t where "ga = \<lparr>week = week g, sec = fl (of_int N / 1000)\<rparr>"
  have near: "ms_near N (sec ga)" unfolding ga_def using ms_near_fl[OF P nabs] by simp
  have "N < (int 1 + 1) * 604800000" using N by simp
  from down_loop[OF P near nabs this] obtain gb j where
    d: "incGpsTime_down fl ga = Some gb" "0 \<le> j" "j \<le> 1" "week gb = week ga + j"
       "ms_near (N - j * 604800000) (sec gb)" "N - j * 604800000 < 604800000"
       "0 \<le> N \<longrightarrow> 0 \<le> N - j * 604800000"
    by auto
  define n' where "n' = N - j * 604800000"
  have n'0: "0 \<le> n'" using d(7) N(1) unfolding n'_def by simp
  have n'lo: "- (int 0 * 604800000) \<le> n'" using n'0 by simp
  have n'abs: "\<bar>n'\<bar> \<le> 10000000000" using n'0 d(6) unfolding n'_def by simp
  from up_loop[OF P d(5)[folded n'_def] n'abs n'lo d(6)[folded n'_def]] obtain gc i where
    u: "incGpsTime_up fl gb = Some gc" "0 \<le> i" "i \<le> 0" "week gc = week gb - i"
       "ms_near (n' + i * 604800000) (sec gc)"
    by auto
  have i0: "i = 0" using u(2,3) by simp
  have res: "incGpsTime fl g dt = Some gc"
    unfolding incGpsTime_def Let_def
    using d(1) u(1) r unfolding ga_def p_def s1_def a_def by simp
  have Ne: "N = 604800000 * j + n'" unfolding n'_def by simp
  have dv: "N div 604800000 = j" using Ne n'0 d(6)[folded n'_def] by (rule int_div_pos_eq)
  have md: "N mod 604800000 = n'" using Ne n'0 d(6)[folded n'_def] by (rule int_mod_pos_eq)
  have "ms_near (N mod 604800000) (sec gc)" unfolding md using u(5) i0 by simp
  moreover have "week gc = week g + N div 604800000" unfolding dv using u(4) d(4) i0 by (simp add: ga_def)
  ultimately show ?thesis using res by blast
qed

lemma fl_tenth:
  assumes P: "binary64_like fl"
  shows "\<bar>fl (1 / 10) - 1 / 10\<bar> \<le> 1 / 2 ^ 40"
  by (rule fl_err[OF P]) simp_all

lemma igrx_grid:
  assumes P: "binary64_like fl" and x: "ms_near (100 * m) (sec g)" and m: "0 \<le> m" "m < 6048000"
  shows "igrx_of fl g = m"
proof -
  define y where "y = fl (sec g * 10)"
  from ms_near_err[OF x] have "\<bar>sec g - of_int m / 10\<bar> \<le> 1 / 1000000" by simp
  then have xe: "sec g \<le> of_int m / 10 + 1 / 1000000" "of_int m / 10 - 1 / 1000000 \<le> sec g"
    unfolding abs_le_iff by linarith+
  have mr: "0 \<le> (of_int m :: real)" "(of_int m :: real) \<le> 6048000" using m by linarith+
  have "\<bar>sec g * 10\<bar> \<le> 6652800" using xe mr unfolding abs_le_iff by linarith
  then have "\<bar>sec g * 10\<bar> * 2 ^ 29 \<le> 2 ^ 52" by simp
  from fl_err[OF P _ this] have "\<bar>y - sec g * 10\<bar> \<le> 1 / 2 ^ 29" unfolding y_def by simp
  then have ye: "y \<le> sec g * 10 + 1 / 536870912" "sec g * 10 - 1 / 536870912 \<le> y"
    unfolding abs_le_iff by simp_all
  have lo: "of_int m \<le> y + 1 / 2" using ye xe by linarith
  have "y + 1 / 2 \<le> of_int m + 1 - 1 / 536870912" using ye xe by linarith
  then have hi: "y + 1 / 2 \<le> of_int m + 1 - 1 / 2 ^ 29" by simp
  have kb: "(m + 1) * 2 ^ 29 \<le> 2 ^ 53" using m by simp
  show ?thesis unfolding igrx_of_def y_def[symmetric]
    by (rule fl_floor_gen(2)[OF P _ m(1) kb lo hi]) simp
qed

lemma tenth_step:
  assumes P: "binary64_like fl" and x: "ms_near (100 * m) (sec g)" and m: "0 \<le> m" "m < 6048000"
  shows "\<exists>g'. incGpsTime fl g (fl (1 / 10)) = Some g' \<and> ms_near (100 * ((m + 1) mod 6048000)) (sec g')"
proof -
  from ms_near_err[OF x] have "\<bar>sec g - of_int m / 10\<bar> \<le> 1 / 1000000" by simp
  then have xe: "sec g \<le> of_int m / 10 + 1 / 1000000" "of_int m / 10 - 1 / 1000000 \<le> sec g"
    unfolding abs_le_iff by linarith+
  from fl_tenth[OF P] have te: "fl (1 / 10) \<le> 1 / 10 + 1 / 1099511627776" "1 / 10 - 1 / 1099511627776 \<le> fl (1 / 10)"
    unfolding abs_le_iff by simp_all
  have "(of_int (100 * (m + 1)) :: real) / 1000 = of_int m / 10 + 1 / 10" by simp
  then have e: "\<bar>sec g + fl (1 / 10) - of_int (100 * (m + 1)) / 1000\<bar> \<le> 1 / 10000"
    using xe te unfolding abs_le_iff by linarith
  have N: "0 \<le> 100 * (m + 1)" "100 * (m + 1) < 2 * 604800000" using m by simp_all
  from incGpsTime_grid[OF P e N] obtain g' where
    r: "incGpsTime fl g (fl (1 / 10)) = Some g'" "ms_near (100 * (m + 1) mod 604800000) (sec g')"
    by blast
  have "100 * (m + 1) mod 604800000 = 100 * ((m + 1) mod 6048000)"
    using mult_mod_right[of 100 "m + 1" 6048000] by simp
  with r show ?thesis by auto
qed

lemma rx_time_grid:
  assumes P: "binary64_like fl" and k0: "0 \<le> k0" "k0 < 6048000"
    and g0: "\<bar>sec g0 - of_int k0 / 10\<bar> \<le> 1 / 1000000"
  shows "\<exists>g. rx_time fl g0 j = Some g \<and> ms_near (100 * ((k0 + 1 + int j) mod 6048000)) (sec g)"
proof (induction j)
  case 0
  have "(of_int (100 * k0) :: real) / 1000 = of_int k0 / 10" by simp
  then have e: "\<bar>sec g0 + 0 - of_int (100 * k0) / 1000\<bar> \<le> 1 / 10000"
    using g0 unfolding abs_le_iff by linarith
  have N: "0 \<le> 100 * k0" "100 * k0 < 2 * 604800000" using k0 by simp_all
  from incGpsTime_grid[OF P e N] obtain ga where
    a: "incGpsTime fl g0 0 = Some ga" "ms_near (100 * k0 mod 604800000) (sec ga)" by blast
  have "100 * k0 mod 604800000 = 100 * k0" using k0 by simp
  with a(2) have "ms_near (100 * k0) (sec ga)" by simp
  from tenth_step[OF P this k0] obtain g where
    "incGpsTime fl ga (fl (1 / 10)) = Some g" "ms_near (100 * ((k0 + 1) mod 6048000)) (sec g)" by blast
  with a(1) show ?case by simp
next
  case (Suc j)
  then obtain g where g: "rx_time fl g0 j = Some g"
    "ms_near (100 * ((k0 + 1 + int j) mod 6048000)) (sec g)" by blast
  have m: "0 \<le> (k0 + 1 + int j) mod 6048000" "(k0 + 1 + int j) mod 6048000 < 6048000" by simp_all
  from tenth_step[OF P g(2) m] obtain g' where
    s: "incGpsTime fl g (fl (1 / 10)) = Some g'"
       "ms_near (100 * (((k0 + 1 + int j) mod 6048000 + 1) mod 6048000)) (sec g')" by blast
  have "((k0 + 1 + int j) mod 6048000 + 1) mod 6048000 = (k0 + 1 + int j + 1) mod 6048000"
    by (rule mod_add_left_eq)
  also have "k0 + 1 + int j + 1 = k0 + 1 + int (Suc j)" by simp
  finally have "((k0 + 1 + int j) mod 6048000 + 1) mod 6048000 = (k0 + 1 + int (Suc j)) mod 6048000" .
  with s g(1) show ?case by simp
qed

lemma fold_update_prefix:
  assumes f: "\<And>i xs. f i xs = (if Q (xs ! i) then xs[i := h (xs ! i)] else xs)"
    and "k \<le> length xs"
  shows "fold f [0..<k] xs = map (\<lambda>c. if Q c then h c else c) (take k xs) @ drop k xs"
  using assms(2)
proof (induction k)
  case 0
  then show ?case by simp
next
  case (Suc k)
  let ?F = "\<lambda>c. if Q c then h c else c"
  let ?ys = "map ?F (take k xs) @ drop k xs"
  from Suc.prems have k: "k < length xs" by simp
  then have ih: "fold f [0..<k] xs = ?ys" using Suc.IH by simp
  have nth: "?ys ! k = xs ! k" using k by (simp add: nth_append)
  have d: "drop k xs = xs ! k # drop (Suc k) xs" using k by (simp add: Cons_nth_drop_Suc)
  have upd: "?ys[k := ?F (xs ! k)] = map ?F (take (Suc k) xs) @ drop (Suc k) xs"
    using k by (simp add: list_update_append d take_Suc_conv_app_nth)
  have "f k ?ys = ?ys[k := ?F (?ys ! k)]"
    unfolding f by (cases "Q (?ys ! k)") simp_all
  then have st: "f k ?ys = map ?F (take (Suc k) xs) @ drop (Suc k) xs"
    unfolding nth upd .
  have "fold f [0..<Suc k] xs = f k (fold f [0..<k] xs)" by simp
  then show ?case unfolding ih st .
qed

lemma fold_update_map:
  "fold (\<lambda>i xs. if Q (xs ! i) then xs[i := h (xs ! i)] else xs) [0..<length xs] xs
     = map (\<lambda>c. if Q c then h c else c) xs"
  using fold_update_prefix[of "\<lambda>i xs. if Q (xs ! i) then xs[i := h (xs ! i)] else xs" Q h "length xs" xs]
  by simp

lemma first_valid_Some:
  "first_valid es = Some sv \<longleftrightarrow> sv < MAX_SAT \<and> eph_vflg (es sv) \<and> (\<forall>i < sv. \<not> eph_vflg (es i))"
  unfolding first_valid_def find_Some_iff by auto

lemma first_valid_None:
  "first_valid es = None \<longleftrightarrow> (\<forall>sv<MAX_SAT. \<not> eph_vflg (es sv))"
  unfolding first_valid_def find_None_iff by auto

lemma refresh_ephemeris_char:
  fixes eph :: "nat \<Rightarrow> nat \<Rightarrow> 'x ephem_t" and ie :: nat and g :: gpstime_t
  assumes len: "length chs = MAX_CHAN"
  defines "due \<equiv> \<exists>sv<MAX_SAT. eph_vflg (eph (ie + 1) sv) \<and> (\<forall>i < sv. \<not> eph_vflg (eph (ie + 1) i))
                     \<and> subGpsTime (eph_toc (eph (ie + 1) sv)) g < 3600"
  shows "refresh_ephemeris e2s eph g (ie, chs)
         = (if due then (ie + 1, map (\<lambda>c. if prn c \<noteq> 0 then e2s (eph (ie + 1) (nat (prn c - 1))) c else c) chs)
            else (ie, chs))"
proof (cases "first_valid (eph (ie + 1))")
  case None
  then have "\<not> due" unfolding due_def first_valid_None by blast
  then show ?thesis using None by (simp add: refresh_ephemeris_def)
next
  case (Some sv)
  then have sv: "sv < MAX_SAT" "eph_vflg (eph (ie + 1) sv)" "\<forall>i < sv. \<not> eph_vflg (eph (ie + 1) i)"
    unfolding first_valid_Some by blast+
  have d: "due \<longleftrightarrow> subGpsTime (eph_toc (eph (ie + 1) sv)) g < 3600"
  proof
    assume due
    then obtain sv' where s': "sv' < MAX_SAT" "eph_vflg (eph (ie + 1) sv')"
      "\<forall>i < sv'. \<not> eph_vflg (eph (ie + 1) i)" "subGpsTime (eph_toc (eph (ie + 1) sv')) g < 3600"
      unfolding due_def by blast
    have "sv' = sv"
    proof (rule ccontr)
      assume "sv' \<noteq> sv"
      then have "sv' < sv \<or> sv < sv'" by linarith
      then show False using sv(2,3) s'(2,3) by blast
    qed
    with s'(4) show "subGpsTime (eph_toc (eph (ie + 1) sv)) g < 3600" by simp
  next
    assume "subGpsTime (eph_toc (eph (ie + 1) sv)) g < 3600"
    with sv show due unfolding due_def by blast
  qed
  have m: "fold (\<lambda>i chs. if prn (chs ! i) \<noteq> 0
                  then chs[i := e2s (eph (ie + 1) (nat (prn (chs ! i) - 1))) (chs ! i)] else chs) [0..<MAX_CHAN] chs
           = map (\<lambda>c. if prn c \<noteq> 0 then e2s (eph (ie + 1) (nat (prn c - 1))) c else c) chs"
    using fold_update_map[of "\<lambda>c. prn c \<noteq> 0" "\<lambda>c. e2s (eph (ie + 1) (nat (prn c - 1))) c" chs]
    unfolding len .
  show ?thesis unfolding refresh_ephemeris_def Let_def fst_conv snd_conv Some option.case d[symmetric] m
    by (simp add: SECONDS_IN_HOUR_def d)
qed

lemma update_navmsg_map:
  assumes len: "length chs = MAX_CHAN"
  shows "update_navmsg gen g chs = map (\<lambda>c. if prn c > 0 then gen g c 0 else c) chs"
  unfolding update_navmsg_def
  using fold_update_map[of "\<lambda>c. prn c > 0" "\<lambda>c. gen g c 0" chs] unfolding len .

lemma maintenance_char:
  fixes eph :: "nat \<Rightarrow> nat \<Rightarrow> 'x ephem_t" and st :: "'r main_state"
    and gen :: "gpstime_t \<Rightarrow> 'r channel_t \<Rightarrow> int \<Rightarrow> 'r channel_t"
    and e2s :: "'x ephem_t \<Rightarrow> 'r channel_t \<Rightarrow> 'r channel_t"
  assumes len: "length (chan (m_sched st)) = MAX_CHAN"
  defines "g \<equiv> m_grx st" and "ie \<equiv> m_ieph st"
  defines "due \<equiv> \<exists>sv<MAX_SAT. eph_vflg (eph (ie + 1) sv) \<and> (\<forall>i < sv. \<not> eph_vflg (eph (ie + 1) i))
                     \<and> subGpsTime (eph_toc (eph (ie + 1) sv)) g < 3600"
  defines "ie' \<equiv> (if due then ie + 1 else ie)"
  defines "chs1 \<equiv> map (\<lambda>c. if prn c > 0 then gen g c 0 else c) (chan (m_sched st))"
  defines "chs2 \<equiv> (if due then map (\<lambda>c. if prn c \<noteq> 0 then e2s (eph ie' (nat (prn c - 1))) c else c) chs1
                    else chs1)"
  shows "maintenance gen e2s eph vis ini st
         = st\<lparr>m_ieph := ie', m_sched := snd (allocateChannel (vis ie' g) (ini ie' g) ((m_sched st)\<lparr>chan := chs2\<rparr>))\<rparr>"
proof -
  have u: "update_navmsg gen g (chan (m_sched st)) = chs1"
    unfolding chs1_def by (rule update_navmsg_map[OF len])
  have l1: "length chs1 = MAX_CHAN" unfolding chs1_def using len by simp
  note rc = refresh_ephemeris_char[OF l1, where ?e2s = e2s and eph = eph and ie = ie and g = g, folded due_def]
  have r: "refresh_ephemeris e2s eph g (ie, chs1) = (ie', chs2)"
  proof (cases due)
    case True
    then show ?thesis unfolding rc ie'_def chs2_def by simp
  next
    case False
    then show ?thesis unfolding rc ie'_def chs2_def by simp
  qed
  show ?thesis
    unfolding maintenance_def Let_def g_def[symmetric] ie_def[symmetric] u r fst_conv snd_conv ..
qed

text \<open>
  Claim C2, amended. Let the start time be within a microsecond of \<open>k0\<close> tenths of a second.
  In pass \<open>j\<close> of the loop the receiver time is \<open>(k0 + 1 + j) mod 6048000\<close> tenths of a second
  into the week, and this number is \<open>igrx\<close>. The pass runs the maintenance exactly when
  \<open>igrx\<close> is a multiple of \<open>period\<close>, which is every \<open>period\<close> passes: every 30 s of simulated
  time for 300 and every 10 s for 100. The maintenance regenerates the navigation message of
  each channel with \<open>prn > 0\<close> (init = 0); it moves to the next ephemeris set exactly when
  the first valid record of that set, in the order of the satellite index, has a TOC less
  than 3600 s after the receiver time (a TOC in the past included), and then rebuilds the
  subframes of the allocated channels; and it runs the scheduler on the result.
\<close>

theorem maintenance_schedule:
  fixes eph :: "nat \<Rightarrow> nat \<Rightarrow> 'x ephem_t" and st :: "'r main_state"
  assumes P: "binary64_like fl" and k0: "0 \<le> k0" "k0 < 6048000"
    and g0: "\<bar>sec g0 - of_int k0 / 10\<bar> \<le> 1 / 1000000"
    and per: "period = 300 \<or> period = 100"
    and len: "length (chan (m_sched st)) = MAX_CHAN"
  shows "\<exists>g g'. rx_time fl g0 j = Some g \<and> rx_time fl g0 (Suc j) = Some g'
     \<and> igrx_of fl g = (k0 + 1 + int j) mod 6048000
     \<and> \<bar>sec g - of_int (igrx_of fl g) / 10\<bar> \<le> 1 / 1000000
     \<and> (igrx_of fl g mod period = 0 \<longleftrightarrow> (k0 + 1 + int j) mod period = 0)
     \<and> loop_tail fl period gen e2s eph vis ini (st\<lparr>m_grx := g\<rparr>)
         = Some ((if igrx_of fl g mod period = 0
                  then maintenance gen e2s eph vis ini (st\<lparr>m_grx := g\<rparr>)
                  else st\<lparr>m_grx := g\<rparr>)\<lparr>m_grx := g'\<rparr>)
     \<and> (let ie = m_ieph st;
            due = (\<exists>sv<MAX_SAT. eph_vflg (eph (ie + 1) sv) \<and> (\<forall>i < sv. \<not> eph_vflg (eph (ie + 1) i))
                     \<and> subGpsTime (eph_toc (eph (ie + 1) sv)) g < 3600);
            ie' = (if due then ie + 1 else ie);
            chs1 = map (\<lambda>c. if prn c > 0 then gen g c 0 else c) (chan (m_sched st));
            chs2 = (if due then map (\<lambda>c. if prn c \<noteq> 0 then e2s (eph ie' (nat (prn c - 1))) c else c) chs1
                    else chs1)
        in maintenance gen e2s eph vis ini (st\<lparr>m_grx := g\<rparr>)
           = st\<lparr>m_grx := g, m_ieph := ie',
                m_sched := snd (allocateChannel (vis ie' g) (ini ie' g) ((m_sched st)\<lparr>chan := chs2\<rparr>))\<rparr>)"
proof -
  define m where "m = (k0 + 1 + int j) mod 6048000"
  have m: "0 \<le> m" "m < 6048000" unfolding m_def by simp_all
  from rx_time_grid[OF P k0 g0, of j] obtain g where
    g: "rx_time fl g0 j = Some g" "ms_near (100 * m) (sec g)" unfolding m_def by blast
  from tenth_step[OF P g(2) m] obtain g' where
    g': "incGpsTime fl g (fl (1 / 10)) = Some g'" by blast
  have s: "rx_time fl g0 (Suc j) = Some g'" using g(1) g' by simp
  have ig: "igrx_of fl g = m" by (rule igrx_grid[OF P g(2) m])
  from ms_near_err[OF g(2)] have er: "\<bar>sec g - of_int m / 10\<bar> \<le> 1 / 1000000" by simp
  have pp: "0 < period" "period dvd 6048000" using per by auto
  have md: "m mod period = (k0 + 1 + int j) mod period"
    unfolding m_def by (rule mod_mod_cancel[OF pp(2)])
  have sm: "m smod period = m mod period" by (rule smod_nonneg[OF m(1) pp(1)])
  let ?s = "st\<lparr>m_grx := g\<rparr>"
  have mg: "m_grx (maintenance gen e2s eph vis ini ?s) = g" by (simp add: maintenance_def Let_def)
  have lt: "loop_tail fl period gen e2s eph vis ini ?s
         = Some ((if m mod period = 0 then maintenance gen e2s eph vis ini ?s else ?s)\<lparr>m_grx := g'\<rparr>)"
    unfolding loop_tail_def Let_def using g' mg by (simp add: ig sm)
  have len': "length (chan (m_sched ?s)) = MAX_CHAN" using len by simp
  note mc = maintenance_char[OF len', where eph = eph and gen = gen and ?e2s = e2s and vis = vis and ini = ini]
  have c: "(let ie = m_ieph st;
            due = (\<exists>sv<MAX_SAT. eph_vflg (eph (ie + 1) sv) \<and> (\<forall>i < sv. \<not> eph_vflg (eph (ie + 1) i))
                     \<and> subGpsTime (eph_toc (eph (ie + 1) sv)) g < 3600);
            ie' = (if due then ie + 1 else ie);
            chs1 = map (\<lambda>c. if prn c > 0 then gen g c 0 else c) (chan (m_sched st));
            chs2 = (if due then map (\<lambda>c. if prn c \<noteq> 0 then e2s (eph ie' (nat (prn c - 1))) c else c) chs1
                    else chs1)
        in maintenance gen e2s eph vis ini ?s
           = st\<lparr>m_grx := g, m_ieph := ie',
                m_sched := snd (allocateChannel (vis ie' g) (ini ie' g) ((m_sched st)\<lparr>chan := chs2\<rparr>))\<rparr>)"
    unfolding Let_def mc by (simp cong: if_cong)
  show ?thesis
    apply (rule exI[of _ g], rule exI[of _ g'])
    unfolding ig
    using g(1) s er md lt c by (simp only: m_def[symmetric] simp_thms)
qed

lemma incGpsTime_down_stop: "sec g < 604800 \<Longrightarrow> incGpsTime_down fl g = Some g"
  by (subst incGpsTime_down.simps) (simp add: SECONDS_IN_WEEK_def)

lemma incGpsTime_up_stop: "0 \<le> sec g \<Longrightarrow> incGpsTime_up fl g = Some g"
  by (subst incGpsTime_up.simps) simp

text \<open>
  A start at 29.9 s of week 2000: in the first pass the receiver time is 30 s, \<open>igrx\<close> is
  300, and the pass of the later release runs the maintenance.
\<close>

theorem maintenance_schedule_witness:
  "rx_time no_rounding \<lparr>week = 2000, sec = 29.9\<rparr> 0 = Some \<lparr>week = 2000, sec = 30\<rparr>
   \<and> igrx_of no_rounding \<lparr>week = 2000, sec = 30\<rparr> = 300
   \<and> (\<exists>g'. loop_tail no_rounding 300 keep_navmsg keep_sbf eph_two_tocs none_visible keep_rest
              \<lparr>m_grx = \<lparr>week = 2000, sec = 30\<rparr>, m_ieph = 0, m_sched = sched_init idle_channel\<rparr>
            = Some ((maintenance keep_navmsg keep_sbf eph_two_tocs none_visible keep_rest
                       \<lparr>m_grx = \<lparr>week = 2000, sec = 30\<rparr>, m_ieph = 0, m_sched = sched_init idle_channel\<rparr>)
                    \<lparr>m_grx := g'\<rparr>))"
proof -
  let ?g0 = "\<lparr>week = 2000, sec = 29.9\<rparr>"
  let ?st = "\<lparr>m_grx = \<lparr>week = 2000, sec = 30\<rparr>, m_ieph = 0, m_sched = sched_init idle_channel\<rparr>"
  have P: "binary64_like no_rounding" by (simp add: binary64_like_def no_rounding_def)
  have a: "incGpsTime no_rounding ?g0 0 = Some ?g0"
    by (simp add: incGpsTime_def Let_def no_rounding_def c_round_def incGpsTime_down_stop incGpsTime_up_stop)
  have b: "incGpsTime no_rounding ?g0 (no_rounding (1 / 10)) = Some \<lparr>week = 2000, sec = 30\<rparr>"
    by (simp add: incGpsTime_def Let_def no_rounding_def c_round_def incGpsTime_down_stop incGpsTime_up_stop)
  have r: "rx_time no_rounding ?g0 0 = Some \<lparr>week = 2000, sec = 30\<rparr>" by (simp add: a b)
  have len: "length (chan (m_sched ?st)) = MAX_CHAN" by (simp add: sched_init_def)
  have h: "\<bar>sec ?g0 - of_int 299 / 10\<bar> \<le> 1 / 1000000" by simp
  from maintenance_schedule[OF P _ _ h _ len, of 300 0 keep_navmsg keep_sbf eph_two_tocs none_visible keep_rest]
  obtain g g' where
    t: "rx_time no_rounding ?g0 0 = Some g" "igrx_of no_rounding g = (299 + 1 + int 0) mod 6048000"
       "loop_tail no_rounding 300 keep_navmsg keep_sbf eph_two_tocs none_visible keep_rest (?st\<lparr>m_grx := g\<rparr>)
         = Some ((if igrx_of no_rounding g mod 300 = 0
                  then maintenance keep_navmsg keep_sbf eph_two_tocs none_visible keep_rest (?st\<lparr>m_grx := g\<rparr>)
                  else ?st\<lparr>m_grx := g\<rparr>)\<lparr>m_grx := g'\<rparr>)"
    by auto
  from t(1) r have g: "g = \<lparr>week = 2000, sec = 30\<rparr>" by simp
  from t(2) have i: "igrx_of no_rounding \<lparr>week = 2000, sec = 30\<rparr> = 300" unfolding g by simp
  from t(3) have "loop_tail no_rounding 300 keep_navmsg keep_sbf eph_two_tocs none_visible keep_rest ?st
         = Some ((maintenance keep_navmsg keep_sbf eph_two_tocs none_visible keep_rest ?st)\<lparr>m_grx := g'\<rparr>)"
    unfolding g i by simp
  with r i show ?thesis by blast
qed

text \<open>
  The claim as stated fails at the ephemeris step. At 0 s of week 2000 \<open>igrx\<close> is 0, a
  multiple of 300, and the next set has the valid TOCs 5400 s (satellite index 0) and 1800 s
  (index 1): its earliest valid TOC is within one hour of the simulated time, but the
  maintenance looks at index 0 alone and stays in set 0.
\<close>

theorem maintenance_schedule_refuted:
  "igrx_of no_rounding \<lparr>week = 2000, sec = 0\<rparr> smod 300 = 0
   \<and> spec_next_set_due eph_two_tocs 0 \<lparr>week = 2000, sec = 0\<rparr>
   \<and> m_ieph (maintenance keep_navmsg keep_sbf eph_two_tocs none_visible keep_rest
               \<lparr>m_grx = \<lparr>week = 2000, sec = 0\<rparr>, m_ieph = 0, m_sched = sched_init idle_channel\<rparr>) = 0"
  by code_simp

end
